theory Spec2Isabelle
  imports Main "HOL-Library.AList"
begin

section \<open>Python values and exceptions\<close>

text \<open>
  The program (\<^verbatim>\<open>src/llm_api.py\<close>, \<^verbatim>\<open>src/main.py\<close>) handles the values that the
  \<^verbatim>\<open>json\<close> module reads and writes: \<^verbatim>\<open>None\<close>, booleans, integers, floats, strings, lists,
  and dictionaries with string keys. A dictionary is an association list in insertion
  order with distinct keys, as a Python \<^verbatim>\<open>dict\<close> is.

  A \<^verbatim>\<open>str\<close> is represented by the list of the code units of its UTF-8 encoding, so that
  \<^verbatim>\<open>.encode('utf-8')\<close> is the identity and an ASCII text has one \<^typ>\<open>char\<close> per character.
  A \<^verbatim>\<open>str\<close> holding an unpaired surrogate, which Python cannot encode, is not covered.
  A float is represented by the literal it was read from, and written back as that
  literal (Python writes the shortest literal of the same number).
\<close>

datatype pyval =
    PNone
  | PBool bool
  | PInt int
  | PFloat string
  | PStr string
  | PList "pyval list"
  | PDict "(string \<times> pyval) list"

datatype exn =
    ValueError string
  | JSONDecodeError
  | UnicodeDecodeError
  | TypeError
  | KeyError string
  | AttributeError
  | FileNotFoundError
  | APIError string

section \<open>\<^verbatim>\<open>json.dumps(obj, indent=n, ensure_ascii=False)\<close>\<close>

fun nat_repr :: "nat \<Rightarrow> string" where
  "nat_repr n =
     (if n < 10 then [char_of (48 + n)]
      else nat_repr (n div 10) @ [char_of (48 + n mod 10)])"

declare nat_repr.simps [simp del]

definition int_repr :: "int \<Rightarrow> string" where
  "int_repr i = (if i < 0 then CHR ''-'' # nat_repr (nat (- i)) else nat_repr (nat i))"

definition hex_digit :: "nat \<Rightarrow> char" where
  "hex_digit d = (if d < 10 then char_of (48 + d) else char_of (87 + d))"

text \<open>
  \<^verbatim>\<open>encode_basestring\<close>: the quote, the backslash and the control characters below
  \<^verbatim>\<open>0x20\<close> are escaped; with \<^verbatim>\<open>ensure_ascii=False\<close> every other character is copied.
\<close>

definition escape_char :: "char \<Rightarrow> string" where
  "escape_char c =
     (if c = CHR 0x22 then [CHR 0x5C, CHR 0x22]
      else if c = CHR 0x5C then [CHR 0x5C, CHR 0x5C]
      else if c = CHR 0x0A then [CHR 0x5C, CHR ''n'']
      else if c = CHR 0x0D then [CHR 0x5C, CHR ''r'']
      else if c = CHR 0x09 then [CHR 0x5C, CHR ''t'']
      else if c = CHR 0x08 then [CHR 0x5C, CHR ''b'']
      else if c = CHR 0x0C then [CHR 0x5C, CHR ''f'']
      else if (of_char c :: nat) < 0x20 then
        [CHR 0x5C, CHR ''u'', CHR ''0'', CHR ''0'',
         hex_digit (of_char c div 16), hex_digit (of_char c mod 16)]
      else [c])"

definition encode_basestring :: "string \<Rightarrow> string" where
  "encode_basestring s = CHR 0x22 # concat (map escape_char s) @ [CHR 0x22]"

definition newline_indent :: "nat \<Rightarrow> nat \<Rightarrow> string" where
  "newline_indent ind lvl = CHR 0x0A # replicate (ind * lvl) CHR '' ''"

fun str_join :: "string \<Rightarrow> string list \<Rightarrow> string" where
  "str_join sep [] = []"
| "str_join sep [x] = x"
| "str_join sep (x # y # ys) = x @ sep @ str_join sep (y # ys)"

text \<open>
  \<^verbatim>\<open>_iterencode\<close> with an indent: an empty container is \<^verbatim>\<open>[]\<close> or \<^verbatim>\<open>{}\<close>; otherwise each
  item starts on a line of its own, one level deeper, items are separated by a comma,
  a key from its value by \<^verbatim>\<open>": "\<close>, and the closing bracket is on a line of its own.
\<close>

fun iterencode :: "nat \<Rightarrow> nat \<Rightarrow> pyval \<Rightarrow> string" where
  "iterencode ind lvl PNone = ''null''"
| "iterencode ind lvl (PBool b) = (if b then ''true'' else ''false'')"
| "iterencode ind lvl (PInt i) = int_repr i"
| "iterencode ind lvl (PFloat f) = f"
| "iterencode ind lvl (PStr s) = encode_basestring s"
| "iterencode ind lvl (PList xs) =
     (if xs = [] then ''[]''
      else ''['' @ newline_indent ind (Suc lvl)
           @ str_join (CHR '','' # newline_indent ind (Suc lvl)) (map (iterencode ind (Suc lvl)) xs)
           @ newline_indent ind lvl @ '']'')"
| "iterencode ind lvl (PDict kvs) =
     (if kvs = [] then ''{}''
      else ''{'' @ newline_indent ind (Suc lvl)
           @ str_join (CHR '','' # newline_indent ind (Suc lvl))
               (map (\<lambda>(k, v). encode_basestring k @ '': '' @ iterencode ind (Suc lvl) v) kvs)
           @ newline_indent ind lvl @ ''}'')"

definition json_dumps :: "nat \<Rightarrow> pyval \<Rightarrow> string" where
  "json_dumps ind obj = iterencode ind 0 obj"

section \<open>\<^verbatim>\<open>json.loads\<close> on bytes\<close>

subsection \<open>Decoding the bytes\<close>

text \<open>
  \<^verbatim>\<open>json.loads(b)\<close> first runs \<^verbatim>\<open>b.decode(detect_encoding(b), 'surrogatepass')\<close>, which
  raises \<^verbatim>\<open>UnicodeDecodeError\<close> on bytes that are not text in the detected encoding.
\<close>

datatype encoding = UTF8 | UTF8_SIG | UTF16 | UTF16_LE | UTF16_BE | UTF32 | UTF32_LE | UTF32_BE

definition starts_with :: "string \<Rightarrow> string \<Rightarrow> bool" where
  "starts_with p s \<longleftrightarrow> take (length p) s = p"

definition detect_encoding :: "string \<Rightarrow> encoding" where
  "detect_encoding b =
     (if starts_with [CHR 0x00, CHR 0x00, CHR 0xFE, CHR 0xFF] b
         \<or> starts_with [CHR 0xFF, CHR 0xFE, CHR 0x00, CHR 0x00] b then UTF32
      else if starts_with [CHR 0xFE, CHR 0xFF] b \<or> starts_with [CHR 0xFF, CHR 0xFE] b then UTF16
      else if starts_with [CHR 0xEF, CHR 0xBB, CHR 0xBF] b then UTF8_SIG
      else if 4 \<le> length b then
        (if b ! 0 = CHR 0x00 then (if b ! 1 \<noteq> CHR 0x00 then UTF16_BE else UTF32_BE)
         else if b ! 1 = CHR 0x00 then
           (if b ! 2 \<noteq> CHR 0x00 \<or> b ! 3 \<noteq> CHR 0x00 then UTF16_LE else UTF32_LE)
         else UTF8)
      else if length b = 2 then
        (if b ! 0 = CHR 0x00 then UTF16_BE
         else if b ! 1 = CHR 0x00 then UTF16_LE
         else UTF8)
      else UTF8)"

definition is_cont :: "char \<Rightarrow> bool" where
  "is_cont c \<longleftrightarrow> (0x80::nat) \<le> of_char c \<and> (of_char c :: nat) \<le> 0xBF"

text \<open>
  Well-formed UTF-8. With \<open>sp\<close> (the \<^verbatim>\<open>surrogatepass\<close> handler) the three-byte forms of
  the surrogates \<^verbatim>\<open>U+D800..U+DFFF\<close> are accepted as well.
\<close>

fun utf8_valid :: "bool \<Rightarrow> string \<Rightarrow> bool" where
  "utf8_valid sp [] = True"
| "utf8_valid sp (a # s) =
     (let x = of_char a :: nat in
      if x < 0x80 then utf8_valid sp s
      else if x < 0xC2 then False
      else if x < 0xE0 then
        (case s of b # s1 \<Rightarrow> is_cont b \<and> utf8_valid sp s1 | _ \<Rightarrow> False)
      else if x < 0xF0 then
        (case s of
           b # c # s2 \<Rightarrow>
             is_cont b \<and> is_cont c
             \<and> (x = 0xE0 \<longrightarrow> (0xA0::nat) \<le> of_char b)
             \<and> (x = 0xED \<and> \<not> sp \<longrightarrow> (of_char b :: nat) \<le> 0x9F)
             \<and> utf8_valid sp s2
         | _ \<Rightarrow> False)
      else if x < 0xF5 then
        (case s of
           b # c # d # s3 \<Rightarrow>
             is_cont b \<and> is_cont c \<and> is_cont d
             \<and> (x = 0xF0 \<longrightarrow> (0x90::nat) \<le> of_char b)
             \<and> (x = 0xF4 \<longrightarrow> (of_char b :: nat) \<le> 0x8F)
             \<and> utf8_valid sp s3
         | _ \<Rightarrow> False)
      else False)"

definition utf8_of_cp :: "nat \<Rightarrow> string" where
  "utf8_of_cp n =
     (if n < 0x80 then [char_of n]
      else if n < 0x800 then [char_of (0xC0 + n div 64), char_of (0x80 + n mod 64)]
      else if n < 0x10000 then
        [char_of (0xE0 + n div 4096), char_of (0x80 + n div 64 mod 64), char_of (0x80 + n mod 64)]
      else [char_of (0xF0 + n div 262144), char_of (0x80 + n div 4096 mod 64),
            char_of (0x80 + n div 64 mod 64), char_of (0x80 + n mod 64)])"

fun utf16_units :: "bool \<Rightarrow> string \<Rightarrow> nat list option" where
  "utf16_units le [] = Some []"
| "utf16_units le [a] = None"
| "utf16_units le (a # b # s) =
     map_option
       (Cons (if le then of_char a + 256 * of_char b else 256 * of_char a + of_char b))
       (utf16_units le s)"

fun utf16_join :: "nat list \<Rightarrow> nat list" where
  "utf16_join (h # l # us) =
     (if 0xD800 \<le> h \<and> h \<le> 0xDBFF \<and> 0xDC00 \<le> l \<and> l \<le> 0xDFFF
      then (0x10000 + (h - 0xD800) * 1024 + (l - 0xDC00)) # utf16_join us
      else h # utf16_join (l # us))"
| "utf16_join us = us"

fun utf32_units :: "bool \<Rightarrow> string \<Rightarrow> nat list option" where
  "utf32_units le [] = Some []"
| "utf32_units le (a # b # c # d # s) =
     (let u = (if le
               then of_char a + 256 * (of_char b + 256 * (of_char c + 256 * of_char d))
               else of_char d + 256 * (of_char c + 256 * (of_char b + 256 * of_char a)))
      in if u < 0x110000 then map_option (Cons u) (utf32_units le s) else None)"
| "utf32_units le _ = None"

definition decode_utf8 :: "string \<Rightarrow> exn + string" where
  "decode_utf8 b = (if utf8_valid True b then Inr b else Inl UnicodeDecodeError)"

definition decode_utf16 :: "bool \<Rightarrow> string \<Rightarrow> exn + string" where
  "decode_utf16 le b =
     (case utf16_units le b of
        None \<Rightarrow> Inl UnicodeDecodeError
      | Some us \<Rightarrow> Inr (concat (map utf8_of_cp (utf16_join us))))"

definition decode_utf32 :: "bool \<Rightarrow> string \<Rightarrow> exn + string" where
  "decode_utf32 le b =
     (case utf32_units le b of
        None \<Rightarrow> Inl UnicodeDecodeError
      | Some us \<Rightarrow> Inr (concat (map utf8_of_cp us)))"

text \<open>
  The codecs \<^verbatim>\<open>utf-16\<close>, \<^verbatim>\<open>utf-32\<close> and \<^verbatim>\<open>utf-8-sig\<close> consume a byte order mark;
  \<^const>\<open>detect_encoding\<close> selects them only when the mark is there.
\<close>

definition decode_bytes :: "string \<Rightarrow> exn + string" where
  "decode_bytes b =
     (case detect_encoding b of
        UTF8 \<Rightarrow> decode_utf8 b
      | UTF8_SIG \<Rightarrow> decode_utf8 (drop 3 b)
      | UTF16 \<Rightarrow> decode_utf16 (starts_with [CHR 0xFF, CHR 0xFE] b) (drop 2 b)
      | UTF16_LE \<Rightarrow> decode_utf16 True b
      | UTF16_BE \<Rightarrow> decode_utf16 False b
      | UTF32 \<Rightarrow> decode_utf32 (starts_with [CHR 0xFF, CHR 0xFE, CHR 0x00, CHR 0x00] b) (drop 4 b)
      | UTF32_LE \<Rightarrow> decode_utf32 True b
      | UTF32_BE \<Rightarrow> decode_utf32 False b)"

subsection \<open>The JSON decoder\<close>

text \<open>
  \<^verbatim>\<open>JSONDecoder.decode\<close>: whitespace is blank, tab, line feed and carriage return; every
  syntax error is a \<^verbatim>\<open>JSONDecodeError\<close>, here \<^const>\<open>None\<close>.
\<close>

definition is_ws :: "char \<Rightarrow> bool" where
  "is_ws c \<longleftrightarrow> c = CHR '' '' \<or> c = CHR 0x09 \<or> c = CHR 0x0A \<or> c = CHR 0x0D"

definition skip_ws :: "string \<Rightarrow> string" where
  "skip_ws s = dropWhile is_ws s"

definition is_digit :: "char \<Rightarrow> bool" where
  "is_digit c \<longleftrightarrow> (48::nat) \<le> of_char c \<and> (of_char c :: nat) \<le> 57"

definition hex_value :: "char \<Rightarrow> nat option" where
  "hex_value c =
     (let x = of_char c :: nat in
      if 48 \<le> x \<and> x \<le> 57 then Some (x - 48)
      else if 97 \<le> x \<and> x \<le> 102 then Some (x - 87)
      else if 65 \<le> x \<and> x \<le> 70 then Some (x - 55)
      else None)"

fun decode_uXXXX :: "string \<Rightarrow> nat option" where
  "decode_uXXXX (a # b # c # d # s) =
     (case (hex_value a, hex_value b, hex_value c, hex_value d) of
        (Some x, Some y, Some z, Some w) \<Rightarrow> Some (((x * 16 + y) * 16 + z) * 16 + w)
      | _ \<Rightarrow> None)"
| "decode_uXXXX _ = None"

definition unescape :: "char \<Rightarrow> char option" where
  "unescape e =
     (if e = CHR 0x22 then Some (CHR 0x22)
      else if e = CHR 0x5C then Some (CHR 0x5C)
      else if e = CHR ''/'' then Some (CHR ''/'')
      else if e = CHR ''b'' then Some (CHR 0x08)
      else if e = CHR ''f'' then Some (CHR 0x0C)
      else if e = CHR ''n'' then Some (CHR 0x0A)
      else if e = CHR ''r'' then Some (CHR 0x0D)
      else if e = CHR ''t'' then Some (CHR 0x09)
      else None)"

definition prepend :: "string \<Rightarrow> (string \<times> string) option \<Rightarrow> (string \<times> string) option" where
  "prepend p r = map_option (\<lambda>(t, rest). (p @ t, rest)) r"

text \<open>
  \<^verbatim>\<open>scanstring\<close>, called after the opening quote, returns the string and the text after
  the closing quote. A raw control character ends the scan with an error (strict mode);
  \<^verbatim>\<open>\uXXXX\<close> escapes of a surrogate pair are joined.
\<close>

fun scanstring :: "string \<Rightarrow> (string \<times> string) option" where
  "scanstring [] = None"
| "scanstring (c # s) =
     (if c = CHR 0x22 then Some ([], s)
      else if c = CHR 0x5C then
        (case s of
           [] \<Rightarrow> None
         | e # s1 \<Rightarrow>
             if e = CHR ''u'' then
               (case decode_uXXXX s1 of
                  None \<Rightarrow> None
                | Some uni \<Rightarrow>
                    if 0xD800 \<le> uni \<and> uni \<le> 0xDBFF
                       \<and> take 2 (drop 4 s1) = [CHR 0x5C, CHR ''u''] then
                      (case decode_uXXXX (drop 6 s1) of
                         None \<Rightarrow> None
                       | Some uni2 \<Rightarrow>
                           if 0xDC00 \<le> uni2 \<and> uni2 \<le> 0xDFFF then
                             prepend
                               (utf8_of_cp (0x10000 + ((uni - 0xD800) * 1024 + (uni2 - 0xDC00))))
                               (scanstring (drop 10 s1))
                           else prepend (utf8_of_cp uni) (scanstring (drop 4 s1)))
                    else prepend (utf8_of_cp uni) (scanstring (drop 4 s1)))
             else
               (case unescape e of
                  None \<Rightarrow> None
                | Some ch \<Rightarrow> prepend [ch] (scanstring s1)))
      else if (of_char c :: nat) < 0x20 then None
      else prepend [c] (scanstring s))"

lemma scanstring_length: "scanstring s = Some (t, r) \<Longrightarrow> length r < length s"
proof (induction "length s" arbitrary: s t r rule: less_induct)
  case less
  have step: "\<And>u t'. scanstring u = Some (t', r) \<Longrightarrow> length u < length s \<Longrightarrow> length r < length s"
    using less.hyps by fastforce
  show ?case
  proof (cases s)
    case Nil
    with less.prems show ?thesis by simp
  next
    case (Cons c s0)
    show ?thesis
      using less.prems step unfolding Cons
      by (auto simp: prepend_def split: if_splits list.splits option.splits)
  qed
qed

lemma skip_ws_length: "length (skip_ws s) \<le> length s"
  by (simp add: skip_ws_def length_dropWhile_le)

text \<open>
  Numbers follow \<^verbatim>\<open>(-?(?:0|[1-9]\d*))(\.\d+)?([eE][-+]?\d+)?\<close>; without fraction and
  exponent the number is an \<^verbatim>\<open>int\<close>, otherwise a \<^verbatim>\<open>float\<close>.
\<close>

definition nat_of_digits :: "string \<Rightarrow> nat" where
  "nat_of_digits ds = foldl (\<lambda>a c. a * 10 + (of_char c - 48)) 0 ds"

definition split_sign :: "string \<Rightarrow> string \<times> string" where
  "split_sign s =
     (case s of c # t \<Rightarrow> if c = CHR ''-'' then ([c], t) else ([], s) | [] \<Rightarrow> ([], s))"

definition split_int :: "string \<Rightarrow> (string \<times> string) option" where
  "split_int s =
     (case s of
        [] \<Rightarrow> None
      | d # t \<Rightarrow>
          if \<not> is_digit d then None
          else if d = CHR ''0'' then Some ([d], t)
          else Some (d # takeWhile is_digit t, dropWhile is_digit t))"

definition split_frac :: "string \<Rightarrow> string \<times> string" where
  "split_frac s =
     (case s of
        p # u \<Rightarrow>
          if p = CHR ''.'' \<and> takeWhile is_digit u \<noteq> []
          then (p # takeWhile is_digit u, dropWhile is_digit u) else ([], s)
      | [] \<Rightarrow> ([], s))"

definition split_exp :: "string \<Rightarrow> string \<times> string" where
  "split_exp s =
     (case s of
        e # u \<Rightarrow>
          if e = CHR ''e'' \<or> e = CHR ''E'' then
            (let (sg, u1) =
                   (case u of
                      g # u' \<Rightarrow> if g = CHR ''+'' \<or> g = CHR ''-'' then ([g], u') else ([], u)
                    | [] \<Rightarrow> ([], u))
             in if takeWhile is_digit u1 \<noteq> []
                then (e # sg @ takeWhile is_digit u1, dropWhile is_digit u1) else ([], s))
          else ([], s)
      | [] \<Rightarrow> ([], s))"

definition match_number :: "string \<Rightarrow> (pyval \<times> string) option" where
  "match_number s =
     (let (sign, s1) = split_sign s in
      case split_int s1 of
        None \<Rightarrow> None
      | Some (ip, r1) \<Rightarrow>
          let (frac, r2) = split_frac r1; (ex, r3) = split_exp r2
          in if frac = [] \<and> ex = []
             then Some (PInt (if sign = [] then int (nat_of_digits ip)
                              else - int (nat_of_digits ip)), r3)
             else Some (PFloat (sign @ ip @ frac @ ex), r3))"

text \<open>\<^verbatim>\<open>dict(pairs)\<close>: a repeated key keeps its first position and its last value.\<close>

definition dict_of_pairs :: "(string \<times> pyval) list \<Rightarrow> (string \<times> pyval) list" where
  "dict_of_pairs kvs = foldl (\<lambda>d (k, v). AList.update k v d) [] kvs"

text \<open>
  \<^verbatim>\<open>scan_once\<close>, \<^verbatim>\<open>JSONArray\<close> and \<^verbatim>\<open>JSONObject\<close>. The two loops continue on the text
  that the value before them left; the test that this text is shorter makes the
  recursion well-founded, and \<open>parse_value_length\<close> below shows that it never fails.
\<close>

function parse_value :: "string \<Rightarrow> (pyval \<times> string) option"
  and parse_array :: "string \<Rightarrow> (pyval list \<times> string) option"
  and parse_object :: "string \<Rightarrow> ((string \<times> pyval) list \<times> string) option"
where
  "parse_value s =
     (case s of
        [] \<Rightarrow> None
      | c # t \<Rightarrow>
          if c = CHR 0x22 then map_option (\<lambda>(x, r). (PStr x, r)) (scanstring t)
          else if c = CHR ''{'' then
            (case skip_ws t of
               [] \<Rightarrow> None
             | d # r \<Rightarrow>
                 if d = CHR ''}'' then Some (PDict [], r)
                 else map_option (\<lambda>(kvs, r'). (PDict (dict_of_pairs kvs), r'))
                        (parse_object (d # r)))
          else if c = CHR ''['' then
            (case skip_ws t of
               [] \<Rightarrow> None
             | d # r \<Rightarrow>
                 if d = CHR '']'' then Some (PList [], r)
                 else map_option (\<lambda>(vs, r'). (PList vs, r')) (parse_array (d # r)))
          else if starts_with ''null'' s then Some (PNone, drop 4 s)
          else if starts_with ''true'' s then Some (PBool True, drop 4 s)
          else if starts_with ''false'' s then Some (PBool False, drop 5 s)
          else
            (case match_number s of
               Some res \<Rightarrow> Some res
             | None \<Rightarrow>
                 if starts_with ''NaN'' s then Some (PFloat ''NaN'', drop 3 s)
                 else if starts_with ''Infinity'' s then Some (PFloat ''Infinity'', drop 8 s)
                 else if starts_with ''-Infinity'' s then Some (PFloat ''-Infinity'', drop 9 s)
                 else None))"
| "parse_array s =
     (case parse_value s of
        None \<Rightarrow> None
      | Some (v, r) \<Rightarrow>
          if \<not> length r < length s then None
          else
            (case skip_ws r of
               [] \<Rightarrow> None
             | d # r1 \<Rightarrow>
                 if d = CHR '']'' then Some ([v], r1)
                 else if d = CHR '','' then
                   map_option (\<lambda>(vs, r2). (v # vs, r2)) (parse_array (skip_ws r1))
                 else None))"
| "parse_object s =
     (case s of
        [] \<Rightarrow> None
      | q # t \<Rightarrow>
          if q \<noteq> CHR 0x22 then None
          else
            (case scanstring t of
               None \<Rightarrow> None
             | Some (key, r) \<Rightarrow>
                 (case skip_ws r of
                    [] \<Rightarrow> None
                  | d # r1 \<Rightarrow>
                      if d \<noteq> CHR '':'' then None
                      else
                        (case parse_value (skip_ws r1) of
                           None \<Rightarrow> None
                         | Some (v, r2) \<Rightarrow>
                             if \<not> length r2 < length s then None
                             else
                               (case skip_ws r2 of
                                  [] \<Rightarrow> None
                                | e # r3 \<Rightarrow>
                                    if e = CHR ''}'' then Some ([(key, v)], r3)
                                    else if e = CHR '','' then
                                      map_option (\<lambda>(kvs, r4). ((key, v) # kvs, r4))
                                        (parse_object (skip_ws r3))
                                    else None)))))"
  by pat_completeness auto
termination
proof (relation
    "measures [\<lambda>x. case x of Inl s \<Rightarrow> length s | Inr (Inl s) \<Rightarrow> length s | Inr (Inr s) \<Rightarrow> length s,
               \<lambda>x. case x of Inl s \<Rightarrow> 0 | Inr _ \<Rightarrow> 1]", goal_cases)
  case 1
  show ?case by simp
next
  case (2 s c t d r)
  then show ?case using skip_ws_length [of t] by auto
next
  case (3 s c t d r)
  then show ?case using skip_ws_length [of t] by auto
next
  case 4
  then show ?case by simp
next
  case (5 s x v r d r1)
  then show ?case using skip_ws_length [of r] skip_ws_length [of r1] by auto
next
  case (6 s q t x key r d r1)
  then show ?case
    using skip_ws_length [of r] skip_ws_length [of r1] scanstring_length [of t key r] by auto
next
  case (7 s q t x key r d r1 y v r2 e r3)
  then show ?case using skip_ws_length [of r2] skip_ws_length [of r3] by auto
qed

declare parse_value.simps [simp del] parse_array.simps [simp del] parse_object.simps [simp del]

definition json_decode :: "string \<Rightarrow> exn + pyval" where
  "json_decode s =
     (case parse_value (skip_ws s) of
        None \<Rightarrow> Inl JSONDecodeError
      | Some (v, r) \<Rightarrow> if skip_ws r = [] then Inr v else Inl JSONDecodeError)"

definition json_loads :: "string \<Rightarrow> exn + pyval" where
  "json_loads b = (case decode_bytes b of Inl e \<Rightarrow> Inl e | Inr s \<Rightarrow> json_decode s)"

section \<open>The files and the effects of the program\<close>

text \<open>
  The state is what the program reads and writes: the snapshot \<^verbatim>\<open>log/record.txt\<close>
  (absent, or its bytes), the audit log \<^verbatim>\<open>log/log.txt\<close>, and the grammar prompt
  template. Whether a file can be opened for writing is part of the state, since
  \<^verbatim>\<open>save_chat_history\<close> and \<^verbatim>\<open>log_message\<close> catch the \<^verbatim>\<open>IOError\<close> of a failed write.
  The trace lists, in order, what was printed, appended to the log, written to the
  snapshot, and sent to the language model.
\<close>

datatype printed =
    WarnDecode
  | ErrorSaving
  | ErrorLogging
  | ErrorCallingLLM exn
  | ChatFailed exn
  | HistoryInitialized nat

datatype effect =
    Printed printed
  | Logged pyval
  | Saved pyval
  | Called string pyval

record world =
  record_file :: "string option"
  record_writable :: bool
  log_file :: string
  log_writable :: bool
  grammer_prompt_file :: "string option"
  trace :: "effect list"

definition emit :: "effect \<Rightarrow> world \<Rightarrow> world" where
  "emit e w = w\<lparr>trace := trace w @ [e]\<rparr>"

section \<open>\<^verbatim>\<open>llm_api.py\<close>\<close>

definition load_chat_history :: "world \<Rightarrow> (exn + pyval) \<times> world" where
  "load_chat_history w =
     (case record_file w of
        None \<Rightarrow> (Inr (PList []), w)
      | Some temp \<Rightarrow>
          (case json_loads temp of
             Inl e \<Rightarrow>
               if e = JSONDecodeError then (Inr (PList []), emit (Printed WarnDecode) w)
               else (Inl e, w)
           | Inr historic_messages \<Rightarrow> (Inr historic_messages, w)))"

definition save_chat_history :: "pyval \<Rightarrow> world \<Rightarrow> world" where
  "save_chat_history messages w =
     (if record_writable w
      then emit (Saved messages) (w\<lparr>record_file := Some (json_dumps 4 messages)\<rparr>)
      else emit (Printed ErrorSaving) w)"

definition log_message :: "pyval \<Rightarrow> world \<Rightarrow> world" where
  "log_message message w =
     (if log_writable w
      then emit (Logged message)
             (w\<lparr>log_file := log_file w @ json_dumps 4 message @ [CHR '','', CHR 0x0A]\<rparr>)
      else emit (Printed ErrorLogging) w)"

definition InvalidRole :: exn where
  "InvalidRole = ValueError ''Invalid role. Must be 'user', 'assistant', or 'system'.''"

definition create_message_dict :: "string \<Rightarrow> string \<Rightarrow> exn + pyval" where
  "create_message_dict role content =
     (if role \<notin> set [''user'', ''assistant'', ''system''] then Inl InvalidRole
      else Inr (PDict [(''role'', PStr role), (''content'', PStr content)]))"

text \<open>
  The client is the external capability: given the model name and the messages it
  returns the text of the first choice, or raises.
\<close>

type_synonym client = "string \<Rightarrow> pyval \<Rightarrow> exn + string"

definition call_llm_api :: "client \<Rightarrow> string \<Rightarrow> pyval \<Rightarrow> world \<Rightarrow> (exn + string) \<times> world" where
  "call_llm_api client model messages w =
     (case client model messages of
        Inr response_content \<Rightarrow> (Inr response_content, emit (Called model messages) w)
      | Inl e \<Rightarrow> (Inl e, emit (Printed (ErrorCallingLLM e)) (emit (Called model messages) w)))"




definition get_initial_chat_history :: "string option \<Rightarrow> exn + pyval" where
  "get_initial_chat_history system_message =
     (case system_message of
        None \<Rightarrow> Inr (PList [])
      | Some sm \<Rightarrow>
          if sm = [] then Inr (PList [])
          else (case create_message_dict ''system'' sm of
                  Inl e \<Rightarrow> Inl e
                | Inr m \<Rightarrow> Inr (PList [m])))"

text \<open>\<^verbatim>\<open>.append\<close> exists on a list only.\<close>

definition py_append :: "pyval \<Rightarrow> pyval \<Rightarrow> exn + pyval" where
  "py_append obj x = (case obj of PList xs \<Rightarrow> Inr (PList (xs @ [x])) | _ \<Rightarrow> Inl AttributeError)"

definition assistant_error_message :: string where
  "assistant_error_message = ''we were unable to process your request at this time.''"

definition chat ::
  "client \<Rightarrow> string \<Rightarrow> string \<Rightarrow> bool \<Rightarrow> string option \<Rightarrow> world \<Rightarrow> (exn + pyval \<times> pyval) \<times> world"
where
  "chat client model prompt use_initial_history system_message w =
     (case (if use_initial_history then (get_initial_chat_history system_message, w)
            else load_chat_history w) of
        (Inl e, w0) \<Rightarrow> (Inl e, w0)
      | (Inr current_messages, w0) \<Rightarrow>
          (case create_message_dict ''user'' prompt of
             Inl e \<Rightarrow> (Inl e, w0)
           | Inr user_message_dict \<Rightarrow>
               let w1 = log_message user_message_dict w0 in
               (case py_append current_messages user_message_dict of
                  Inl e \<Rightarrow> (Inl e, w1)
                | Inr current_messages1 \<Rightarrow>
                    (case call_llm_api client model current_messages1 w1 of
                       (Inl e, w2) \<Rightarrow>
                         let w3 = emit (Printed (ChatFailed e)) w2 in
                         (case create_message_dict ''assistant'' assistant_error_message of
                            Inl e' \<Rightarrow> (Inl e', w3)
                          | Inr assistant_message_dict \<Rightarrow>
                              let w4 = log_message assistant_message_dict w3 in
                              (case py_append current_messages1 assistant_message_dict of
                                 Inl e' \<Rightarrow> (Inl e', w4)
                               | Inr current_messages2 \<Rightarrow>
                                   (Inr (user_message_dict, assistant_message_dict),
                                    save_chat_history current_messages2 w4)))
                     | (Inr llm_response_content, w2) \<Rightarrow>
                         (case create_message_dict ''assistant'' llm_response_content of
                            Inl e \<Rightarrow> (Inl e, w2)
                          | Inr assistant_message_dict \<Rightarrow>
                              (case py_append current_messages1 assistant_message_dict of
                                 Inl e \<Rightarrow> (Inl e, w2)
                               | Inr current_messages2 \<Rightarrow>
                                   let w3 = save_chat_history current_messages2 w2 in
                                   (Inr (user_message_dict, assistant_message_dict),
                                    log_message assistant_message_dict w3)))))))"

section \<open>\<^verbatim>\<open>main.py\<close>\<close>


subsection \<open>\<^verbatim>\<open>extract_code_snippet\<close>\<close>

text \<open>
  \<^verbatim>\<open>re.search(r"```(?:\w+)?\n(.*?)```", s, re.DOTALL)\<close>, as the backtracking matcher runs
  it: at each start, from left to right, the fence, then the longest run of word
  characters and after it every shorter one down to none, a line feed, and the shortest
  content that a fence follows. The word characters are the ASCII ones (letters, digits
  and the underscore); a tag with a letter outside ASCII is not covered.
\<close>

definition is_word :: "char \<Rightarrow> bool" where
  "is_word c \<longleftrightarrow>
     (let x = of_char c :: nat in
      (48 \<le> x \<and> x \<le> 57) \<or> (65 \<le> x \<and> x \<le> 90) \<or> (97 \<le> x \<and> x \<le> 122) \<or> x = 95)"

definition fence :: string where
  "fence = ''```''"















subsection \<open>\<^verbatim>\<open>modify_grammer\<close>\<close>











section \<open>Notions of the specification\<close>

text \<open>
  The messages of a conversation, the line that the audit log receives for one of them,
  the history that a turn starts from, and what one turn does to that history
  (\<open>turn\<close>, shown below to be what \<^const>\<open>chat\<close> does). The worlds and clients at the end
  are the concrete cases on which the properties are instantiated.
\<close>

definition user_message :: "string \<Rightarrow> pyval" where
  "user_message prompt = PDict [(''role'', PStr ''user''), (''content'', PStr prompt)]"

definition assistant_message :: "string \<Rightarrow> pyval" where
  "assistant_message content = PDict [(''role'', PStr ''assistant''), (''content'', PStr content)]"

definition system_message_entry :: "string \<Rightarrow> pyval" where
  "system_message_entry content = PDict [(''role'', PStr ''system''), (''content'', PStr content)]"

definition fallback_message :: pyval where
  "fallback_message = assistant_message ''we were unable to process your request at this time.''"

definition log_entry :: "pyval \<Rightarrow> string" where
  "log_entry m = json_dumps 4 m @ [CHR '','', CHR 0x0A]"

definition working_history :: "bool \<Rightarrow> string option \<Rightarrow> world \<Rightarrow> exn + pyval list" where
  "working_history fresh sm w =
     (case (if fresh then get_initial_chat_history sm else fst (load_chat_history w)) of
        Inl e \<Rightarrow> Inl e
      | Inr (PList xs) \<Rightarrow> Inr xs
      | Inr _ \<Rightarrow> Inl AttributeError)"

definition after_start :: "bool \<Rightarrow> world \<Rightarrow> world" where
  "after_start fresh w = (if fresh then w else snd (load_chat_history w))"

definition turn :: "client \<Rightarrow> string \<Rightarrow> string \<Rightarrow> pyval list \<Rightarrow> world \<Rightarrow> (exn + pyval \<times> pyval) \<times> world" where
  "turn client model prompt hist w0 =
     (let u = user_message prompt; msgs = PList (hist @ [u]); w1 = emit (Called model msgs) (log_message u w0) in
      case client model msgs of
        Inl e \<Rightarrow>
          (Inr (u, fallback_message),
           save_chat_history (PList (hist @ [u, fallback_message]))
             (log_message fallback_message
                (emit (Printed (ChatFailed e)) (emit (Printed (ErrorCallingLLM e)) w1))))
      | Inr c \<Rightarrow>
          (Inr (u, assistant_message c),
           log_message (assistant_message c)
             (save_chat_history (PList (hist @ [u, assistant_message c])) w1)))"

definition reply_message :: "client \<Rightarrow> string \<Rightarrow> pyval list \<Rightarrow> pyval" where
  "reply_message client model msgs =
     (case client model (PList msgs) of Inl e \<Rightarrow> fallback_message | Inr c \<Rightarrow> assistant_message c)"

definition audit_view :: "effect list \<Rightarrow> effect list" where
  "audit_view es = filter (\<lambda>e. case e of Logged _ \<Rightarrow> True | Called _ _ \<Rightarrow> True | _ \<Rightarrow> False) es"


definition quiet_world :: world where
  "quiet_world = \<lparr>record_file = None, record_writable = True, log_file = [], log_writable = True,
                   grammer_prompt_file = None, trace = []\<rparr>"







definition undecodable_world :: world where
  "undecodable_world = quiet_world\<lparr>record_file := Some [CHR 0xFF]\<rparr>"

definition reply_text :: "client \<Rightarrow> string \<Rightarrow> pyval list \<Rightarrow> string" where
  "reply_text client model msgs =
     (case client model (PList msgs) of
        Inl e \<Rightarrow> ''we were unable to process your request at this time.''
      | Inr c \<Rightarrow> c)"



text \<open>
  What the round trip of the snapshot is stated for. A Python \<^verbatim>\<open>str\<close> is carried as the
  UTF-8 code units of its text, so a string of the model stands for a \<^verbatim>\<open>str\<close> exactly
  when it is well-formed UTF-8 (\<open>is_text\<close>). A value reads back as itself when its
  strings are text, it holds no float (a float is carried as its literal, and the
  literal that \<^verbatim>\<open>float.__repr__\<close> prints is outside the model) and its dictionaries
  have distinct keys, as every Python \<^verbatim>\<open>dict\<close> has (\<open>json_ok\<close>). A well-formed message
  is a dictionary of a textual role and a textual content, in this order, which is how
  \<^const>\<open>create_message_dict\<close> builds it; a well-formed history is a list of such messages.
\<close>

definition is_text :: "string \<Rightarrow> bool" where
  "is_text s = utf8_valid False s"

fun json_ok :: "pyval \<Rightarrow> bool" where
  "json_ok PNone = True"
| "json_ok (PBool b) = True"
| "json_ok (PInt i) = True"
| "json_ok (PFloat f) = False"
| "json_ok (PStr s) = is_text s"
| "json_ok (PList xs) = list_all json_ok xs"
| "json_ok (PDict kvs) =
     (distinct (map fst kvs) \<and> list_all (\<lambda>kv. is_text (fst kv) \<and> json_ok (snd kv)) kvs)"

definition well_formed_message :: "pyval \<Rightarrow> bool" where
  "well_formed_message m =
     (case m of
        PDict [(k1, PStr role), (k2, PStr content)] \<Rightarrow>
          k1 = ''role'' \<and> k2 = ''content'' \<and> is_text role \<and> is_text content
      | _ \<Rightarrow> False)"

definition well_formed_history :: "pyval list \<Rightarrow> bool" where
  "well_formed_history H = list_all well_formed_message H"

section \<open>Auxiliary notions of the proofs\<close>

text \<open>
  What may follow an encoded value in the output of \<^const>\<open>iterencode\<close>: nothing, a comma or
  a line feed. None of them continues a number. \<open>value_start\<close> lists the characters that
  an encoded value can begin with, and \<open>encode_item\<close> is one entry of an encoded dictionary.
\<close>

definition delim :: "string \<Rightarrow> bool" where
  "delim rest \<longleftrightarrow> rest = [] \<or> hd rest = CHR '','' \<or> hd rest = CHR 0x0A"

definition no_digit_next :: "string \<Rightarrow> bool" where
  "no_digit_next rest \<longleftrightarrow> (case rest of [] \<Rightarrow> True | c # _ \<Rightarrow> \<not> is_digit c)"

definition value_start :: "char \<Rightarrow> bool" where
  "value_start c \<longleftrightarrow>
     is_digit c \<or> c = CHR ''-'' \<or> c = CHR 0x22 \<or> c = CHR ''['' \<or> c = CHR ''{''
     \<or> c = CHR ''n'' \<or> c = CHR ''t'' \<or> c = CHR ''f''"

definition encode_item :: "nat \<Rightarrow> nat \<Rightarrow> string \<times> pyval \<Rightarrow> string" where
  "encode_item ind l kv = encode_basestring (fst kv) @ '': '' @ iterencode ind l (snd kv)"

text \<open>
  Well-formed UTF-8 as a sequence of encoded characters (\<open>chunk\<close>) of one to four code
  units; \<open>lead3\<close> and \<open>lead4\<close> are the bounds on the second unit after a lead byte.
\<close>

definition lead3 :: "bool \<Rightarrow> char \<Rightarrow> char \<Rightarrow> bool" where
  "lead3 sp a b \<longleftrightarrow>
     is_cont b \<and> ((of_char a :: nat) = 0xE0 \<longrightarrow> (0xA0::nat) \<le> of_char b)
     \<and> ((of_char a :: nat) = 0xED \<and> \<not> sp \<longrightarrow> (of_char b :: nat) \<le> 0x9F)"

definition lead4 :: "char \<Rightarrow> char \<Rightarrow> bool" where
  "lead4 a b \<longleftrightarrow>
     is_cont b \<and> ((of_char a :: nat) = 0xF0 \<longrightarrow> (0x90::nat) \<le> of_char b)
     \<and> ((of_char a :: nat) = 0xF4 \<longrightarrow> (of_char b :: nat) \<le> 0x8F)"

definition chunk :: "bool \<Rightarrow> string \<Rightarrow> bool" where
  "chunk sp p \<longleftrightarrow>
     (\<exists>a. p = [a] \<and> (of_char a :: nat) < 0x80)
     \<or> (\<exists>a b. p = [a, b] \<and> \<not> (of_char a :: nat) < 0xC2 \<and> (of_char a :: nat) < 0xE0 \<and> is_cont b)
     \<or> (\<exists>a b c. p = [a, b, c] \<and> \<not> (of_char a :: nat) < 0xE0 \<and> (of_char a :: nat) < 0xF0
            \<and> lead3 sp a b \<and> is_cont c)
     \<or> (\<exists>a b c d. p = [a, b, c, d] \<and> \<not> (of_char a :: nat) < 0xF0 \<and> (of_char a :: nat) < 0xF5
            \<and> lead4 a b \<and> is_cont c \<and> is_cont d)"

text \<open>
  Bytes on which \<^const>\<open>detect_encoding\<close> answers UTF-8 and \<^const>\<open>decode_utf8\<close> succeeds: they
  hold no zero byte (\<open>good\<close>); ASCII text without one is a case of this (\<open>ascii\<close>).
\<close>

definition ascii :: "string \<Rightarrow> bool" where
  "ascii s \<longleftrightarrow> (\<forall>c \<in> set s. (of_char c :: nat) < 0x80 \<and> c \<noteq> CHR 0x00)"

definition good :: "string \<Rightarrow> bool" where
  "good s \<longleftrightarrow> utf8_valid True s \<and> CHR 0x00 \<notin> set s"

section \<open>The pattern finds the first fenced block\<close>

lemma starts_with_append [simp]: "starts_with p (p @ r)"
  by (simp add: starts_with_def)


lemma fence_length [simp]: "length fence = 3"
  by (simp add: fence_def)




lemma not_word_newline [simp]: "\<not> is_word (CHR 0x0A)"
  by (simp add: is_word_def)


















section \<open>One turn of the conversation\<close>

lemma emit_simps [simp]:
  "record_file (emit e w) = record_file w"
  "record_writable (emit e w) = record_writable w"
  "log_file (emit e w) = log_file w"
  "log_writable (emit e w) = log_writable w"
  "grammer_prompt_file (emit e w) = grammer_prompt_file w"
  "trace (emit e w) = trace w @ [e]"
  by (simp_all add: emit_def)

lemma log_message_simps [simp]:
  "record_file (log_message m w) = record_file w"
  "record_writable (log_message m w) = record_writable w"
  "log_writable (log_message m w) = log_writable w"
  "grammer_prompt_file (log_message m w) = grammer_prompt_file w"
  "log_file (log_message m w) = (if log_writable w then log_file w @ log_entry m else log_file w)"
  "trace (log_message m w) = trace w @ [if log_writable w then Logged m else Printed ErrorLogging]"
  by (simp_all add: log_message_def log_entry_def)

lemma save_chat_history_simps [simp]:
  "record_file (save_chat_history v w) = (if record_writable w then Some (json_dumps 4 v) else record_file w)"
  "record_writable (save_chat_history v w) = record_writable w"
  "log_writable (save_chat_history v w) = log_writable w"
  "grammer_prompt_file (save_chat_history v w) = grammer_prompt_file w"
  "log_file (save_chat_history v w) = log_file w"
  "trace (save_chat_history v w) = trace w @ [if record_writable w then Saved v else Printed ErrorSaving]"
  by (simp_all add: save_chat_history_def)

lemma load_chat_history_frame [simp]:
  "record_file (snd (load_chat_history w)) = record_file w"
  "record_writable (snd (load_chat_history w)) = record_writable w"
  "log_file (snd (load_chat_history w)) = log_file w"
  "log_writable (snd (load_chat_history w)) = log_writable w"
  "grammer_prompt_file (snd (load_chat_history w)) = grammer_prompt_file w"
  by (simp_all add: load_chat_history_def split: option.splits sum.splits)

lemma create_message_dict_simps [simp]:
  "create_message_dict ''user'' c = Inr (user_message c)"
  "create_message_dict ''assistant'' c = Inr (assistant_message c)"
  "create_message_dict ''system'' c = Inr (system_message_entry c)"
  by (simp_all add: create_message_dict_def user_message_def assistant_message_def system_message_entry_def)


lemma chat_turn:
  assumes "working_history fresh sm w = Inr hist"
  shows "chat client model prompt fresh sm w = turn client model prompt hist (after_start fresh w)"
proof -
  have start: "(if fresh then (get_initial_chat_history sm, w) else load_chat_history w)
               = (Inr (PList hist), after_start fresh w)"
    using assms
    by (cases "load_chat_history w")
       (auto simp: working_history_def after_start_def split: if_splits sum.splits pyval.splits)
  show ?thesis
    unfolding chat_def start
    by (simp add: turn_def py_append_def call_llm_api_def assistant_error_message_def
        fallback_message_def Let_def split: sum.splits)
qed



lemma audit_view_simps [simp]:
  "audit_view [] = []"
  "audit_view (es @ fs) = audit_view es @ audit_view fs"
  "audit_view (Logged m # es) = Logged m # audit_view es"
  "audit_view (Called md ms # es) = Called md ms # audit_view es"
  "audit_view (Printed p # es) = audit_view es"
  "audit_view (Saved v # es) = audit_view es"
  by (simp_all add: audit_view_def)

lemma audit_view_load [simp]:
  "audit_view (trace (snd (load_chat_history w))) = audit_view (trace w)"
  by (simp add: load_chat_history_def split: option.splits sum.splits)

lemma after_start_simps [simp]:
  "record_writable (after_start fresh w) = record_writable w"
  "log_writable (after_start fresh w) = log_writable w"
  "log_file (after_start fresh w) = log_file w"
  "record_file (after_start fresh w) = record_file w"
  "audit_view (trace (after_start fresh w)) = audit_view (trace w)"
  by (simp_all add: after_start_def)

lemma working_history_fresh:
  "working_history True (Some sm) w = Inr (if sm = [] then [] else [system_message_entry sm])"
  "working_history True None w = Inr []"
  by (simp_all add: working_history_def get_initial_chat_history_def)




lemma load_chat_history_absent:
  "record_file w = None \<Longrightarrow> load_chat_history w = (Inr (PList []), w)"
  by (simp add: load_chat_history_def)

lemma load_chat_history_not_json:
  "record_file w = Some b \<Longrightarrow> json_loads b = Inl JSONDecodeError \<Longrightarrow>
   load_chat_history w = (Inr (PList []), emit (Printed WarnDecode) w)"
  by (simp add: load_chat_history_def)

lemma json_decode_errors: "json_decode s = Inl e \<Longrightarrow> e = JSONDecodeError"
  by (auto simp: json_decode_def split: option.splits if_splits)

lemma decode_bytes_errors: "decode_bytes b = Inl e \<Longrightarrow> e = UnicodeDecodeError"
  unfolding decode_bytes_def decode_utf8_def decode_utf16_def decode_utf32_def
  by (cases "detect_encoding b") (auto split: option.splits if_splits)

lemma json_loads_errors: "json_loads b = Inl e \<Longrightarrow> e = JSONDecodeError \<or> e = UnicodeDecodeError"
  unfolding json_loads_def
  by (cases "decode_bytes b") (auto dest: json_decode_errors decode_bytes_errors)

lemma load_chat_history_raises:
  "fst (load_chat_history w) = Inl e \<Longrightarrow> e = UnicodeDecodeError"
  unfolding load_chat_history_def
  by (auto split: option.splits sum.splits if_splits dest: json_loads_errors)

lemma reply_message_text:
  "reply_message client model msgs = assistant_message (reply_text client model msgs)"
  by (simp add: reply_message_def reply_text_def fallback_message_def split: sum.splits)

lemma chat_frame [simp]:
  "grammer_prompt_file (snd (chat client model prompt True sm w)) = grammer_prompt_file w"
  "record_writable (snd (chat client model prompt True sm w)) = record_writable w"
  "log_writable (snd (chat client model prompt True sm w)) = log_writable w"
proof -
  obtain hist where h: "working_history True sm w = Inr hist"
    by (cases sm) (auto simp: working_history_fresh)
  show "grammer_prompt_file (snd (chat client model prompt True sm w)) = grammer_prompt_file w"
    "record_writable (snd (chat client model prompt True sm w)) = record_writable w"
    "log_writable (snd (chat client model prompt True sm w)) = log_writable w"
    unfolding chat_turn [OF h]
    by (simp_all add: turn_def Let_def after_start_def split: sum.splits)
qed







section \<open>The parser consumes its input\<close>

text \<open>
  Every value that the parser returns leaves a shorter text, so the length tests inside
  \<^const>\<open>parse_array\<close> and \<^const>\<open>parse_object\<close> never reject anything.
\<close>

lemma split_sign_length: "split_sign s = (sg, r) \<Longrightarrow> length r \<le> length s"
  by (auto simp: split_sign_def split: list.splits if_splits)

lemma split_int_length: "split_int s = Some (ip, r) \<Longrightarrow> length r < length s"
  by (auto simp: split_int_def less_Suc_eq_le length_dropWhile_le split: list.splits if_splits)

lemma split_frac_length: "split_frac s = (f, r) \<Longrightarrow> length r \<le> length s"
  by (auto simp: split_frac_def le_Suc_eq length_dropWhile_le le_SucI split: list.splits if_splits)

lemma split_exp_length: "split_exp s = (e, r) \<Longrightarrow> length r \<le> length s"
  by (auto simp: split_exp_def Let_def length_dropWhile_le le_SucI
      split: list.splits if_splits prod.splits)

lemma match_number_length:
  assumes "match_number s = Some (v, r)"
  shows "length r < length s"
proof -
  obtain sg s1 where a: "split_sign s = (sg, s1)" by (cases "split_sign s")
  from assms a obtain ip r1 where b: "split_int s1 = Some (ip, r1)"
    by (auto simp: match_number_def split: option.splits)
  obtain f r2 where c: "split_frac r1 = (f, r2)" by (cases "split_frac r1")
  obtain e r3 where d: "split_exp r2 = (e, r3)" by (cases "split_exp r2")
  from assms a b c d have "r = r3"
    by (auto simp: match_number_def split: if_splits)
  with split_sign_length [OF a] split_int_length [OF b] split_frac_length [OF c]
    split_exp_length [OF d]
  show ?thesis by simp
qed


lemma parse_length:
  "(\<forall>v r. parse_value s = Some (v, r) \<longrightarrow> length r < length s)"
  "(\<forall>vs r. parse_array s1 = Some (vs, r) \<longrightarrow> length r < length s1)"
  "(\<forall>kvs r. parse_object s2 = Some (kvs, r) \<longrightarrow> length r < length s2)"
proof (induction s and s1 and s2 rule: parse_value_parse_array_parse_object.induct)
  case (1 s)
  show ?case
  proof (intro allI impI)
    fix v r assume a: "parse_value s = Some (v, r)"
    then obtain c t where s: "s = c # t"
      by (cases s) (simp_all add: parse_value.simps)
    have ws: "\<And>d u. skip_ws t = d # u \<Longrightarrow> length u < length t"
      using skip_ws_length [of t] by (metis length_Cons less_Suc_eq_le not_less)
    consider (str) "c = CHR 0x22"
      | (obj) "c \<noteq> CHR 0x22" "c = CHR ''{''"
      | (arr) "c \<noteq> CHR 0x22" "c \<noteq> CHR ''{''" "c = CHR ''[''"
      | (oth) "c \<noteq> CHR 0x22" "c \<noteq> CHR ''{''" "c \<noteq> CHR ''[''"
      by blast
    then show "length r < length s"
    proof cases
      case str
      with a s obtain x where "scanstring t = Some (x, r)"
        by (auto simp: parse_value.simps)
      from scanstring_length [OF this] s show ?thesis by simp
    next
      case obj
      show ?thesis
      proof (cases "skip_ws t")
        case Nil
        with a s obj show ?thesis by (simp add: parse_value.simps)
      next
        case (Cons d u)
        show ?thesis
        proof (cases "d = CHR ''}''")
          case True
          with a s obj Cons have "r = u" by (simp add: parse_value.simps)
          with ws [OF Cons] s show ?thesis by simp
        next
          case False
          with a s obj Cons obtain kvs where po: "parse_object (d # u) = Some (kvs, r)"
            by (auto simp: parse_value.simps)
          have "length r < length (d # u)"
            using "1.IH"(1) [OF s _ _ Cons False] obj po by blast
          with ws [OF Cons] s show ?thesis by simp
        qed
      qed
    next
      case arr
      show ?thesis
      proof (cases "skip_ws t")
        case Nil
        with a s arr show ?thesis by (simp add: parse_value.simps)
      next
        case (Cons d u)
        show ?thesis
        proof (cases "d = CHR '']''")
          case True
          with a s arr Cons have "r = u" by (simp add: parse_value.simps)
          with ws [OF Cons] s show ?thesis by simp
        next
          case False
          with a s arr Cons obtain vs where pa: "parse_array (d # u) = Some (vs, r)"
            by (auto simp: parse_value.simps)
          have "length r < length (d # u)"
            using "1.IH"(2) [OF s _ _ _ Cons False] arr pa by blast
          with ws [OF Cons] s show ?thesis by simp
        qed
      qed
    next
      case oth
      have sw: "\<And>p. starts_with p s \<Longrightarrow> p \<noteq> [] \<Longrightarrow> length (drop (length p) s) < length s"
        by (auto simp: starts_with_def s)
      from a oth s have
        "(starts_with ''null'' s \<and> r = drop 4 s) \<or> (starts_with ''true'' s \<and> r = drop 4 s)
         \<or> (starts_with ''false'' s \<and> r = drop 5 s) \<or> match_number s = Some (v, r)
         \<or> (starts_with ''NaN'' s \<and> r = drop 3 s) \<or> (starts_with ''Infinity'' s \<and> r = drop 8 s)
         \<or> (starts_with ''-Infinity'' s \<and> r = drop 9 s)"
        unfolding parse_value.simps [of s]
        by (simp split: if_splits option.splits)
      then show ?thesis
        using sw [of "''null''"] sw [of "''true''"] sw [of "''false''"] sw [of "''NaN''"]
          sw [of "''Infinity''"] sw [of "''-Infinity''"] match_number_length [of s v r]
        by auto
    qed
  qed
next
  case (2 s)
  show ?case
  proof (intro allI impI)
    fix vs r assume a: "parse_array s = Some (vs, r)"
    then obtain v r0 where pv: "parse_value s = Some (v, r0)"
      by (cases "parse_value s") (auto simp: parse_array.simps)
    with a have lt: "length r0 < length s"
      by (auto simp: parse_array.simps split: if_splits)
    from a pv lt obtain d r1 where ws: "skip_ws r0 = d # r1"
      by (cases "skip_ws r0") (auto simp: parse_array.simps)
    have l1: "length r1 < length s"
      using skip_ws_length [of r0] ws lt by simp
    show "length r < length s"
    proof (cases "d = CHR '']''")
      case True
      with a pv lt ws have "r = r1" by (simp add: parse_array.simps)
      with l1 show ?thesis by simp
    next
      case False
      with a pv lt ws have d: "d = CHR '',''"
        by (auto simp: parse_array.simps split: if_splits)
      with a pv lt ws False obtain vs' where pa: "parse_array (skip_ws r1) = Some (vs', r)"
        by (auto simp: parse_array.simps)
      have "length r < length (skip_ws r1)"
        using "2.IH"(2) [OF pv refl _ ws False d] lt pa by simp
      with skip_ws_length [of r1] l1 show ?thesis by simp
    qed
  qed
next
  case (3 s)
  show ?case
  proof (intro allI impI)
    fix kvs r assume a: "parse_object s = Some (kvs, r)"
    then obtain q t where s: "s = q # t"
      by (cases s) (simp_all add: parse_object.simps)
    with a have q: "q = CHR 0x22"
      by (auto simp: parse_object.simps split: if_splits)
    from a s q obtain key r0 where sc: "scanstring t = Some (key, r0)"
      by (cases "scanstring t") (auto simp: parse_object.simps)
    have l0: "length r0 < length t" by (rule scanstring_length [OF sc])
    from a s q sc obtain d r1 where ws: "skip_ws r0 = d # r1"
      by (cases "skip_ws r0") (auto simp: parse_object.simps)
    with a s q sc have d: "d = CHR '':''"
      by (auto simp: parse_object.simps split: if_splits)
    have l1: "length r1 < length t"
      using skip_ws_length [of r0] ws l0 by simp
    from a s q sc ws d obtain v r2 where pv: "parse_value (skip_ws r1) = Some (v, r2)"
      by (cases "parse_value (skip_ws r1)") (auto simp: parse_object.simps)
    with a s q sc ws d have lt: "length r2 < length s"
      by (auto simp: parse_object.simps split: if_splits)
    from a s q sc ws d pv lt obtain e r3 where ws2: "skip_ws r2 = e # r3"
      by (cases "skip_ws r2") (auto simp: parse_object.simps)
    have l3: "length r3 < length s"
      using skip_ws_length [of r2] ws2 lt by simp
    show "length r < length s"
    proof (cases "e = CHR ''}''")
      case True
      with a s q sc ws d pv lt ws2 have "r = r3" by (simp add: parse_object.simps)
      with l3 show ?thesis by simp
    next
      case False
      with a s q sc ws d pv lt ws2 have e: "e = CHR '',''"
        by (auto simp: parse_object.simps split: if_splits)
      with a s q sc ws d pv lt ws2 False obtain kvs' where
        po: "parse_object (skip_ws r3) = Some (kvs', r)"
        by (auto simp: parse_object.simps)
      have "length r < length (skip_ws r3)"
        using "3.IH"(2) [OF s _ sc refl ws _ pv refl _ ws2 False e] q d lt po by simp
      with skip_ws_length [of r3] l3 show ?thesis by simp
    qed
  qed
qed

lemma parse_value_length: "parse_value s = Some (v, r) \<Longrightarrow> length r < length s"
  using parse_length(1) by blast

section \<open>Reading back what was written\<close>

text \<open>
  \<^const>\<open>json_loads\<close> after \<^const>\<open>json_dumps\<close> is the identity on the values of \<^const>\<open>json_ok\<close>.
  First the parser: on the encoding of a value, followed by a delimiter, it returns the
  value and the rest (\<open>parse_value_iterencode\<close>). Then the bytes: the encoding of such a
  value is well-formed UTF-8 without a zero byte, so it is decoded as UTF-8 and unchanged
  (\<open>good_iterencode\<close>, \<open>decode_bytes_good\<close>).
\<close>

lemma hex_value_hex_digit: "d < 16 \<Longrightarrow> hex_value (hex_digit d) = Some d"
  unfolding hex_value_def hex_digit_def Let_def
  by (auto simp: of_char_of [where ?'a = nat, unfolded of_nat_id] simp flip: of_nat_id)

lemma hex_value_zero [simp]: "hex_value CHR ''0'' = Some 0"
  by (simp add: hex_value_def)

lemma decode_uXXXX_control:
  "n < 32 \<Longrightarrow>
   decode_uXXXX (CHR ''0'' # CHR ''0'' # hex_digit (n div 16) # hex_digit (n mod 16) # X) = Some n"
  by (simp add: hex_value_hex_digit)

lemma scanstring_escape_char:
  "scanstring (escape_char c @ X) = prepend [c] (scanstring X)"
proof -
  consider (quote) "c = CHR 0x22" | (bs) "c = CHR 0x5C" | (nl) "c = CHR 0x0A" | (cr) "c = CHR 0x0D"
    | (tab) "c = CHR 0x09" | (b) "c = CHR 0x08" | (ff) "c = CHR 0x0C"
    | (ctl) "c \<notin> {CHR 0x22, CHR 0x5C, CHR 0x0A, CHR 0x0D, CHR 0x09, CHR 0x08, CHR 0x0C}"
        "(of_char c :: nat) < 0x20"
    | (plain) "c \<notin> {CHR 0x22, CHR 0x5C, CHR 0x0A, CHR 0x0D, CHR 0x09, CHR 0x08, CHR 0x0C}"
        "\<not> (of_char c :: nat) < 0x20"
    by blast
  then show ?thesis
  proof cases
    case ctl
    have "utf8_of_cp (of_char c) = [c]"
      using ctl(2) by (simp add: utf8_of_cp_def)
    with ctl decode_uXXXX_control [of "of_char c" X] show ?thesis
      by (simp add: escape_char_def)
  next
    case plain
    then show ?thesis by (simp add: escape_char_def)
  qed (simp_all add: escape_char_def unescape_def)
qed

lemma prepend_Some [simp]: "prepend p (Some (t, r)) = Some (p @ t, r)"
  by (simp add: prepend_def)

lemma scanstring_escaped:
  "scanstring (concat (map escape_char s) @ CHR 0x22 # rest) = Some (s, rest)"
  by (induction s) (simp_all add: scanstring_escape_char)

lemma parse_value_string:
  "parse_value (encode_basestring s @ rest) = Some (PStr s, rest)"
  by (simp add: parse_value.simps encode_basestring_def scanstring_escaped)

lemma digit_char:
  "d < 10 \<Longrightarrow> is_digit (char_of (48 + d)) \<and> (of_char (char_of (48 + d)) :: nat) = 48 + d"
  by (simp add: is_digit_def)

lemma nat_repr_digits: "c \<in> set (nat_repr n) \<Longrightarrow> is_digit c"
proof (induction n arbitrary: c rule: nat_repr.induct)
  case (1 n)
  show ?case
  proof (cases "n < 10")
    case True
    with 1(2) show ?thesis by (simp add: nat_repr.simps [of n] digit_char)
  next
    case False
    with 1 show ?thesis
      by (auto simp: nat_repr.simps [of n] digit_char)
  qed
qed

lemma nat_repr_nonempty: "nat_repr n \<noteq> []"
  by (simp add: nat_repr.simps [of n])

lemma nat_of_digits_snoc:
  "nat_of_digits (ds @ [d]) = nat_of_digits ds * 10 + (of_char d - 48)"
  by (simp add: nat_of_digits_def)

lemma nat_of_digits_nat_repr: "nat_of_digits (nat_repr n) = n"
proof (induction n rule: nat_repr.induct)
  case (1 n)
  show ?case
  proof (cases "n < 10")
    case True
    then show ?thesis
      by (simp add: nat_repr.simps [of n] nat_of_digits_def digit_char)
  next
    case False
    with 1 show ?thesis
      by (simp add: nat_repr.simps [of n] nat_of_digits_snoc digit_char)
  qed
qed

lemma char_of_48: "char_of (48::nat) = CHR ''0''"
proof -
  have "char_of (of_char CHR ''0'' :: nat) = CHR ''0''" by (rule char_of_char)
  then show ?thesis by simp
qed

lemma nat_repr_leading: "hd (nat_repr n) = CHR ''0'' \<Longrightarrow> n = 0"
proof (induction n rule: nat_repr.induct)
  case (1 n)
  show ?case
  proof (cases "n < 10")
    case True
    with 1(2) have "(of_char (char_of (48 + n)) :: nat) = of_char CHR ''0''"
      by (simp add: nat_repr.simps [of n])
    with True show ?thesis by (simp add: digit_char)
  next
    case False
    with 1(2) have "hd (nat_repr (n div 10)) = CHR ''0''"
      by (simp add: nat_repr.simps [of n] nat_repr_nonempty)
    with 1(1) False have "n div 10 = 0" by simp
    with False show ?thesis by simp
  qed
qed

lemma nat_repr_zero: "nat_repr 0 = ''0''"
  by (simp add: nat_repr.simps [of 0] char_of_48)

lemma takeWhile_digits:
  assumes "\<forall>c \<in> set ds. is_digit c" and "no_digit_next rest"
  shows "takeWhile is_digit (ds @ rest) = ds" and "dropWhile is_digit (ds @ rest) = rest"
  using assms
  by (auto simp: no_digit_next_def takeWhile_append2 dropWhile_append3 takeWhile_eq_Nil_iff
      dropWhile_eq_self_iff split: list.splits)

lemma split_int_nat_repr:
  assumes "no_digit_next rest"
  shows "split_int (nat_repr n @ rest) = Some (nat_repr n, rest)"
proof -
  obtain d t where dt: "nat_repr n = d # t"
    using nat_repr_nonempty [of n] by (cases "nat_repr n") auto
  have digs: "is_digit d" "\<forall>c \<in> set t. is_digit c"
    using nat_repr_digits [of _ n] dt by auto
  show ?thesis
  proof (cases "d = CHR ''0''")
    case True
    then have "n = 0" using nat_repr_leading [of n] dt by simp
    then show ?thesis by (simp add: nat_repr_zero split_int_def is_digit_def)
  next
    case False
    then show ?thesis
      using digs takeWhile_digits [OF digs(2) assms] by (simp add: dt split_int_def)
  qed
qed

lemma delim_no_number:
  assumes "delim rest"
  shows "no_digit_next rest" and "split_frac rest = ([], rest)" and "split_exp rest = ([], rest)"
  using assms
  by (auto simp: delim_def no_digit_next_def split_frac_def split_exp_def is_digit_def
      split: list.splits)

lemma match_number_int_repr:
  assumes "delim rest"
  shows "match_number (int_repr i @ rest) = Some (PInt i, rest)"
proof (cases "i < 0")
  case True
  have "split_sign (int_repr i @ rest) = (''-'', nat_repr (nat (- i)) @ rest)"
    using True by (simp add: int_repr_def split_sign_def)
  then show ?thesis
    using True split_int_nat_repr [OF delim_no_number(1) [OF assms]] delim_no_number(2,3) [OF assms]
    by (simp add: match_number_def nat_of_digits_nat_repr)
next
  case False
  obtain d t where dt: "nat_repr (nat i) = d # t"
    using nat_repr_nonempty [of "nat i"] by (cases "nat_repr (nat i)") auto
  have "is_digit d" using nat_repr_digits [of d "nat i"] dt by simp
  then have "d \<noteq> CHR ''-''" by (auto simp: is_digit_def)
  then have "split_sign (int_repr i @ rest) = ([], nat_repr (nat i) @ rest)"
    using False by (simp add: int_repr_def split_sign_def dt)
  then show ?thesis
    using False split_int_nat_repr [OF delim_no_number(1) [OF assms]] delim_no_number(2,3) [OF assms]
    by (simp add: match_number_def nat_of_digits_nat_repr)
qed

lemma int_repr_head:
  obtains c cs where "int_repr i = c # cs" and "is_digit c \<or> c = CHR ''-''"
proof (cases "i < 0")
  case True
  then show ?thesis using that by (simp add: int_repr_def)
next
  case False
  obtain d t where dt: "nat_repr (nat i) = d # t"
    using nat_repr_nonempty [of "nat i"] by (cases "nat_repr (nat i)") auto
  have "is_digit d" using nat_repr_digits [of d "nat i"] dt by simp
  with dt False that show ?thesis by (simp add: int_repr_def)
qed

lemma parse_value_int:
  assumes "delim rest"
  shows "parse_value (int_repr i @ rest) = Some (PInt i, rest)"
proof -
  obtain c cs where cs: "int_repr i = c # cs" and c: "is_digit c \<or> c = CHR ''-''"
    by (rule int_repr_head)
  from c have "c \<noteq> CHR 0x22" "c \<noteq> CHR ''{''" "c \<noteq> CHR ''[''" "c \<noteq> CHR ''n''" "c \<noteq> CHR ''t''"
    "c \<noteq> CHR ''f''"
    by (auto simp: is_digit_def)
  then show ?thesis
    using match_number_int_repr [OF assms, of i]
    by (simp add: parse_value.simps [of "c # cs @ rest"] cs starts_with_def)
qed

lemma value_start_not:
  assumes "value_start c"
  shows "\<not> is_ws c" and "c \<noteq> CHR '']''" and "c \<noteq> CHR ''}''" and "(of_char c :: nat) < 0x80"
    and "c \<noteq> CHR 0x00"
  using assms by (auto simp: value_start_def is_digit_def is_ws_def)

lemma iterencode_head:
  assumes "json_ok v"
  shows "\<exists>c cs. iterencode ind lvl v = c # cs \<and> value_start c"
proof (cases v)
  case PNone
  then show ?thesis by (simp add: value_start_def)
next
  case (PBool b)
  then show ?thesis by (cases b) (simp_all add: value_start_def)
next
  case (PInt i)
  obtain c cs where "int_repr i = c # cs" and "is_digit c \<or> c = CHR ''-''"
    by (rule int_repr_head)
  with PInt show ?thesis by (auto simp: value_start_def)
next
  case (PFloat f)
  with assms show ?thesis by simp
next
  case (PStr s)
  then show ?thesis by (simp add: value_start_def encode_basestring_def)
next
  case (PList xs)
  then show ?thesis by (cases "xs = []") (simp_all add: value_start_def)
next
  case (PDict kvs)
  then show ?thesis by (cases "kvs = []") (simp_all add: value_start_def)
qed

lemma skip_ws_newline_indent:
  "\<not> is_ws c \<Longrightarrow> skip_ws (newline_indent ind lvl @ c # Y) = c # Y"
  by (simp add: skip_ws_def newline_indent_def is_ws_def dropWhile_append3)

lemma skip_ws_id: "\<not> is_ws c \<Longrightarrow> skip_ws (c # Y) = c # Y"
  by (simp add: skip_ws_def)

lemma delim_simps [simp]:
  "delim []" "delim (CHR '','' # Y)" "delim (newline_indent ind lvl @ Y)"
  by (simp_all add: delim_def newline_indent_def)

lemma parse_array_step:
  assumes "parse_value s = Some (v, r)" and "length r < length s" and "skip_ws r = d # r1"
  shows "parse_array s =
     (if d = CHR '']'' then Some ([v], r1)
      else if d = CHR '','' then map_option (\<lambda>(vs, r2). (v # vs, r2)) (parse_array (skip_ws r1))
      else None)"
  using assms by (simp add: parse_array.simps [of s])

lemma parse_object_step:
  assumes "scanstring t = Some (key, CHR '':'' # r1)"
    and "parse_value (skip_ws r1) = Some (v, r2)"
    and "length r2 < Suc (length t)" and "skip_ws r2 = e # r3"
  shows "parse_object (CHR 0x22 # t) =
     (if e = CHR ''}'' then Some ([(key, v)], r3)
      else if e = CHR '','' then
        map_option (\<lambda>(kvs, r4). ((key, v) # kvs, r4)) (parse_object (skip_ws r3))
      else None)"
  using assms by (simp add: parse_object.simps [of "CHR 0x22 # t"] skip_ws_id is_ws_def)

lemma parse_array_items:
  assumes "xs \<noteq> []"
    and "\<And>x rest. x \<in> set xs \<Longrightarrow> delim rest \<Longrightarrow>
           parse_value (iterencode ind l x @ rest) = Some (x, rest)"
    and "\<And>x. x \<in> set xs \<Longrightarrow> json_ok x"
  shows "parse_array (str_join (CHR '','' # newline_indent ind l) (map (iterencode ind l) xs)
            @ newline_indent ind l' @ CHR '']'' # rest) = Some (xs, rest)"
  using assms
proof (induction xs rule: list_nonempty_induct)
  case (single x)
  let ?r = "newline_indent ind l' @ CHR '']'' # rest"
  have pv: "parse_value (iterencode ind l x @ ?r) = Some (x, ?r)"
    using single by simp
  obtain c cs where "iterencode ind l x = c # cs"
    using iterencode_head [of x ind l] single.prems(2) by auto
  then have len: "length ?r < length (iterencode ind l x @ ?r)" by simp
  have sk: "skip_ws ?r = CHR '']'' # rest"
    by (simp add: skip_ws_newline_indent is_ws_def)
  show ?case
    using parse_array_step [OF pv len sk] by simp
next
  case (cons x xs)
  obtain y ys where xs: "xs = y # ys" using cons.hyps by (cases xs) auto
  let ?tail = "str_join (CHR '','' # newline_indent ind l) (map (iterencode ind l) xs)
                 @ newline_indent ind l' @ CHR '']'' # rest"
  let ?r = "CHR '','' # newline_indent ind l @ ?tail"
  have pv: "parse_value (iterencode ind l x @ ?r) = Some (x, ?r)"
    using cons.prems(1) [of x ?r] by simp
  obtain c cs where "iterencode ind l x = c # cs"
    using iterencode_head [of x ind l] cons.prems(2) by auto
  then have len: "length ?r < length (iterencode ind l x @ ?r)" by simp
  have sk: "skip_ws ?r = CHR '','' # newline_indent ind l @ ?tail"
    by (simp add: skip_ws_id is_ws_def)
  obtain d ds where d: "iterencode ind l y = d # ds" and vs: "value_start d"
    using iterencode_head [of y ind l] cons.prems(2) xs by auto
  have "?tail = d # tl ?tail" "\<not> is_ws d"
    using d value_start_not(1) [OF vs] xs by (cases ys; simp)+
  then have sk2: "skip_ws (newline_indent ind l @ ?tail) = ?tail"
    using skip_ws_newline_indent [of d ind l "tl ?tail"] by simp
  have IH: "parse_array ?tail = Some (xs, rest)"
    using cons.IH cons.prems by simp
  have "str_join (CHR '','' # newline_indent ind l) (map (iterencode ind l) (x # xs))
          @ newline_indent ind l' @ CHR '']'' # rest = iterencode ind l x @ ?r"
    using xs by simp
  then show ?case
    using parse_array_step [OF pv len sk] sk2 IH by simp
qed

lemma skip_ws_blank: "\<not> is_ws c \<Longrightarrow> skip_ws (CHR '' '' # c # Y) = c # Y"
  by (simp add: skip_ws_def is_ws_def)

lemma encode_item_eq:
  "(\<lambda>(k, v). encode_basestring k @ '': '' @ iterencode ind l v) = encode_item ind l"
  by (auto simp: encode_item_def)

lemma parse_object_item:
  assumes pv: "\<And>rest. delim rest \<Longrightarrow> parse_value (iterencode ind l v @ rest) = Some (v, rest)"
    and ok: "json_ok v" and dl: "delim R" and sk: "skip_ws R = e # r3"
  shows "parse_object (encode_item ind l (k, v) @ R) =
     (if e = CHR ''}'' then Some ([(k, v)], r3)
      else if e = CHR '','' then
        map_option (\<lambda>(kvs, r4). ((k, v) # kvs, r4)) (parse_object (skip_ws r3))
      else None)"
proof -
  let ?t = "concat (map escape_char k) @ CHR 0x22 # CHR '':'' # CHR '' '' # iterencode ind l v @ R"
  have shape: "encode_item ind l (k, v) @ R = CHR 0x22 # ?t"
    by (simp add: encode_item_def encode_basestring_def)
  have sc: "scanstring ?t = Some (k, CHR '':'' # CHR '' '' # iterencode ind l v @ R)"
    by (rule scanstring_escaped)
  obtain c cs where c: "iterencode ind l v = c # cs" and vs: "value_start c"
    using iterencode_head [OF ok, of ind l] by blast
  have "skip_ws (CHR '' '' # iterencode ind l v @ R) = iterencode ind l v @ R"
    using skip_ws_blank [OF value_start_not(1) [OF vs]] c by simp
  then have pv': "parse_value (skip_ws (CHR '' '' # iterencode ind l v @ R)) = Some (v, R)"
    using pv [OF dl] by simp
  have len: "length R < Suc (length ?t)" by simp
  show ?thesis
    unfolding shape by (rule parse_object_step [OF sc pv' len sk])
qed

lemma parse_object_items:
  assumes "kvs \<noteq> []"
    and "\<And>k v rest. (k, v) \<in> set kvs \<Longrightarrow> delim rest \<Longrightarrow>
           parse_value (iterencode ind l v @ rest) = Some (v, rest)"
    and "\<And>k v. (k, v) \<in> set kvs \<Longrightarrow> json_ok v"
  shows "parse_object (str_join (CHR '','' # newline_indent ind l) (map (encode_item ind l) kvs)
            @ newline_indent ind l' @ CHR ''}'' # rest) = Some (kvs, rest)"
  using assms
proof (induction kvs rule: list_nonempty_induct)
  case (single kv)
  obtain k v where kv: "kv = (k, v)" by (cases kv)
  let ?R = "newline_indent ind l' @ CHR ''}'' # rest"
  have sk: "skip_ws ?R = CHR ''}'' # rest"
    by (simp add: skip_ws_newline_indent is_ws_def)
  show ?case
    using parse_object_item [where k = k and v = v and ind = ind and l = l,
        OF single.prems(1) [of k v] single.prems(2) [of k v] _ sk]
    by (simp add: kv)
next
  case (cons kv kvs)
  obtain k v where kv: "kv = (k, v)" by (cases kv)
  obtain kv' kvs' where kvs: "kvs = kv' # kvs'" using cons.hyps by (cases kvs) auto
  let ?tail = "str_join (CHR '','' # newline_indent ind l) (map (encode_item ind l) kvs)
                 @ newline_indent ind l' @ CHR ''}'' # rest"
  let ?R = "CHR '','' # newline_indent ind l @ ?tail"
  have sk: "skip_ws ?R = CHR '','' # newline_indent ind l @ ?tail"
    by (simp add: skip_ws_id is_ws_def)
  have "?tail = CHR 0x22 # tl ?tail"
    using kvs by (cases kvs') (simp_all add: encode_item_def encode_basestring_def)
  then have sk2: "skip_ws (newline_indent ind l @ ?tail) = ?tail"
    using skip_ws_newline_indent [of "CHR 0x22" ind l "tl ?tail"] by (simp add: is_ws_def)
  have IH: "parse_object ?tail = Some (kvs, rest)"
  proof (rule cons.IH)
    show "parse_value (iterencode ind l v' @ rest') = Some (v', rest')"
      if "(k', v') \<in> set kvs" "delim rest'" for k' v' rest'
      using cons.prems(1) [of k' v' rest'] that by simp
    show "json_ok v'" if "(k', v') \<in> set kvs" for k' v'
      using cons.prems(2) [of k' v'] that by simp
  qed
  have "str_join (CHR '','' # newline_indent ind l) (map (encode_item ind l) (kv # kvs))
          @ newline_indent ind l' @ CHR ''}'' # rest = encode_item ind l (k, v) @ ?R"
    using kvs kv by simp
  then show ?case
    using parse_object_item [where k = k and v = v and ind = ind and l = l,
        OF cons.prems(1) [of k v] cons.prems(2) [of k v] _ sk]
      sk2 IH
    by (simp add: kv)
qed

lemma update_fresh: "k \<notin> fst ` set al \<Longrightarrow> AList.update k v al = al @ [(k, v)]"
  by (induction al) auto

lemma dict_of_pairs_append:
  "distinct (map fst (acc @ kvs)) \<Longrightarrow>
   foldl (\<lambda>d (k, v). AList.update k v d) acc kvs = acc @ kvs"
proof (induction kvs arbitrary: acc)
  case Nil
  then show ?case by simp
next
  case (Cons kv kvs)
  obtain k v where kv: "kv = (k, v)" by (cases kv)
  have "k \<notin> fst ` set acc" using Cons.prems kv by auto
  then have "AList.update k v acc = acc @ [(k, v)]" by (rule update_fresh)
  moreover have "distinct (map fst ((acc @ [(k, v)]) @ kvs))" using Cons.prems kv by simp
  ultimately show ?case using Cons.IH [of "acc @ [(k, v)]"] kv by simp
qed

lemma dict_of_pairs_distinct: "distinct (map fst kvs) \<Longrightarrow> dict_of_pairs kvs = kvs"
  using dict_of_pairs_append [of "[]" kvs] by (simp add: dict_of_pairs_def)

lemma parse_value_Cons:
  "parse_value (c # t) =
     (if c = CHR 0x22 then map_option (\<lambda>(x, r). (PStr x, r)) (scanstring t)
      else if c = CHR ''{'' then
        (case skip_ws t of
           [] \<Rightarrow> None
         | d # r \<Rightarrow>
             if d = CHR ''}'' then Some (PDict [], r)
             else map_option (\<lambda>(kvs, r'). (PDict (dict_of_pairs kvs), r')) (parse_object (d # r)))
      else if c = CHR ''['' then
        (case skip_ws t of
           [] \<Rightarrow> None
         | d # r \<Rightarrow>
             if d = CHR '']'' then Some (PList [], r)
             else map_option (\<lambda>(vs, r'). (PList vs, r')) (parse_array (d # r)))
      else if starts_with ''null'' (c # t) then Some (PNone, drop 4 (c # t))
      else if starts_with ''true'' (c # t) then Some (PBool True, drop 4 (c # t))
      else if starts_with ''false'' (c # t) then Some (PBool False, drop 5 (c # t))
      else
        (case match_number (c # t) of
           Some res \<Rightarrow> Some res
         | None \<Rightarrow>
             if starts_with ''NaN'' (c # t) then Some (PFloat ''NaN'', drop 3 (c # t))
             else if starts_with ''Infinity'' (c # t) then Some (PFloat ''Infinity'', drop 8 (c # t))
             else if starts_with ''-Infinity'' (c # t) then Some (PFloat ''-Infinity'', drop 9 (c # t))
             else None))"
  by (simp add: parse_value.simps [of "c # t"])

lemma parse_value_open_list:
  assumes "skip_ws t = d # r" and "d \<noteq> CHR '']''" and "parse_array (d # r) = Some (vs, r')"
  shows "parse_value (CHR ''['' # t) = Some (PList vs, r')"
  using assms by (simp add: parse_value_Cons)

lemma parse_value_open_dict:
  assumes "skip_ws t = d # r" and "d \<noteq> CHR ''}''" and "parse_object (d # r) = Some (kvs, r')"
  shows "parse_value (CHR ''{'' # t) = Some (PDict (dict_of_pairs kvs), r')"
  using assms by (simp add: parse_value_Cons)

lemma iterencode_dict:
  "kvs \<noteq> [] \<Longrightarrow>
   iterencode ind lvl (PDict kvs) =
     CHR ''{'' # newline_indent ind (Suc lvl)
       @ str_join (CHR '','' # newline_indent ind (Suc lvl)) (map (encode_item ind (Suc lvl)) kvs)
       @ newline_indent ind lvl @ ''}''"
proof -
  have "map (\<lambda>(k, v). encode_basestring k @ '': '' @ iterencode ind (Suc lvl) v) kvs
          = map (encode_item ind (Suc lvl)) kvs"
    by (rule map_cong) (auto simp: encode_item_def)
  then show "kvs \<noteq> [] \<Longrightarrow> ?thesis"
    by (simp only: iterencode.simps if_False) simp
qed

lemma parse_value_iterencode:
  "json_ok v \<Longrightarrow> delim rest \<Longrightarrow> parse_value (iterencode ind lvl v @ rest) = Some (v, rest)"
proof (induction v arbitrary: lvl rest)
  case PNone
  show ?case by (simp add: parse_value_Cons starts_with_def)
next
  case (PBool b)
  show ?case
    by (cases b)
       (simp_all add: parse_value_Cons starts_with_def)
next
  case (PInt i)
  then show ?case by (simp add: parse_value_int)
next
  case (PFloat f)
  then show ?case by simp
next
  case (PStr s)
  show ?case by (simp add: parse_value_string)
next
  case (PList xs)
  show ?case
  proof (cases "xs = []")
    case True
    then show ?thesis
      by (simp add: parse_value_Cons skip_ws_id is_ws_def)
  next
    case False
    let ?items = "str_join (CHR '','' # newline_indent ind (Suc lvl)) (map (iterencode ind (Suc lvl)) xs)
                    @ newline_indent ind lvl @ CHR '']'' # rest"
    have oks: "\<And>x. x \<in> set xs \<Longrightarrow> json_ok x"
      using PList.prems(1) by (simp add: list_all_iff)
    have items: "parse_array ?items = Some (xs, rest)"
      using parse_array_items [OF False, of ind "Suc lvl" lvl rest] PList.IH oks by blast
    obtain y ys where xs: "xs = y # ys" using False by (cases xs) auto
    obtain d ds where d: "iterencode ind (Suc lvl) y = d # ds" and vs: "value_start d"
      using iterencode_head [of y ind "Suc lvl"] oks xs by auto
    obtain rest' where hd: "?items = d # rest'"
      using d xs by (cases ys) simp_all
    have sk: "skip_ws (newline_indent ind (Suc lvl) @ d # rest') = d # rest'"
      by (rule skip_ws_newline_indent [OF value_start_not(1) [OF vs]])
    have items': "parse_array (d # rest') = Some (xs, rest)"
      using items hd by simp
    have "parse_value (CHR ''['' # newline_indent ind (Suc lvl) @ d # rest') = Some (PList xs, rest)"
      by (rule parse_value_open_list [OF sk value_start_not(2) [OF vs] items'])
    with False hd show ?thesis by simp
  qed
next
  case (PDict kvs)
  show ?case
  proof (cases "kvs = []")
    case True
    then show ?thesis
      by (simp add: parse_value_Cons skip_ws_id is_ws_def)
  next
    case False
    let ?items = "str_join (CHR '','' # newline_indent ind (Suc lvl)) (map (encode_item ind (Suc lvl)) kvs)
                    @ newline_indent ind lvl @ CHR ''}'' # rest"
    have oks: "\<And>k v. (k, v) \<in> set kvs \<Longrightarrow> json_ok v"
      using PDict.prems(1) by (auto simp: list_all_iff)
    have ih: "\<And>k v rest. (k, v) \<in> set kvs \<Longrightarrow> delim rest \<Longrightarrow>
           parse_value (iterencode ind (Suc lvl) v @ rest) = Some (v, rest)"
      using PDict.IH oks by fastforce
    have items: "parse_object ?items = Some (kvs, rest)"
      using parse_object_items [OF False, of ind "Suc lvl" lvl rest] ih oks by blast
    obtain kv kvs' where kvs: "kvs = kv # kvs'" using False by (cases kvs) auto
    obtain rest' where hd: "?items = CHR 0x22 # rest'"
      using kvs by (cases kvs') (simp_all add: encode_item_def encode_basestring_def)
    have sk: "skip_ws (newline_indent ind (Suc lvl) @ CHR 0x22 # rest') = CHR 0x22 # rest'"
      by (rule skip_ws_newline_indent) (simp add: is_ws_def)
    have items': "parse_object (CHR 0x22 # rest') = Some (kvs, rest)"
      using items hd by simp
    have "parse_value (CHR ''{'' # newline_indent ind (Suc lvl) @ CHR 0x22 # rest')
            = Some (PDict (dict_of_pairs kvs), rest)"
      by (rule parse_value_open_dict [OF sk _ items']) simp
    moreover have "dict_of_pairs kvs = kvs"
      using PDict.prems(1) by (simp add: dict_of_pairs_distinct)
    ultimately show ?thesis
      using hd by (simp add: iterencode_dict [OF False] del: iterencode.simps)
  qed
qed

lemma utf8_valid_1: "(of_char a :: nat) < 0x80 \<Longrightarrow> utf8_valid sp (a # s) = utf8_valid sp s"
  by simp

lemma utf8_valid_bad:
  "\<not> (of_char a :: nat) < 0x80 \<Longrightarrow> (of_char a :: nat) < 0xC2 \<or> \<not> (of_char a :: nat) < 0xF5 \<Longrightarrow>
   \<not> utf8_valid sp (a # s)"
  by (auto simp: Let_def)

lemma utf8_valid_2:
  "\<not> (of_char a :: nat) < 0xC2 \<Longrightarrow> (of_char a :: nat) < 0xE0 \<Longrightarrow>
   utf8_valid sp (a # s) = (\<exists>b s1. s = b # s1 \<and> is_cont b \<and> utf8_valid sp s1)"
  by (cases s) (simp_all add: Let_def)

lemma utf8_valid_3:
  assumes "\<not> (of_char a :: nat) < 0xE0" and "(of_char a :: nat) < 0xF0"
  shows "utf8_valid sp (a # s) =
     (\<exists>b c s2. s = b # c # s2 \<and> lead3 sp a b \<and> is_cont c \<and> utf8_valid sp s2)"
proof (cases s)
  case Nil
  with assms show ?thesis by (simp add: Let_def)
next
  case (Cons b t)
  from assms show ?thesis
    unfolding Cons by (cases t) (auto simp: Let_def lead3_def)
qed

lemma utf8_valid_4:
  assumes "\<not> (of_char a :: nat) < 0xF0" and "(of_char a :: nat) < 0xF5"
  shows "utf8_valid sp (a # s) =
     (\<exists>b c d s3. s = b # c # d # s3 \<and> lead4 a b \<and> is_cont c \<and> is_cont d \<and> utf8_valid sp s3)"
proof (cases s)
  case Nil
  with assms show ?thesis by (simp add: Let_def)
next
  case s: (Cons b t)
  show ?thesis
  proof (cases t)
    case Nil
    with s assms show ?thesis by (simp add: Let_def)
  next
    case t: (Cons c u)
    from assms show ?thesis
      unfolding s t by (cases u) (auto simp: Let_def lead4_def)
  qed
qed

declare utf8_valid.simps(2) [simp del]

lemma utf8_valid_chunk: "chunk sp p \<Longrightarrow> utf8_valid sp (p @ s) = utf8_valid sp s"
  unfolding chunk_def
  by (elim disjE exE conjE)
     (simp_all add: utf8_valid_1 utf8_valid_2 utf8_valid_3 utf8_valid_4)

lemma utf8_valid_split:
  assumes "utf8_valid sp s" and "s \<noteq> []"
  obtains p r where "s = p @ r" and "chunk sp p" and "length r < length s" and "utf8_valid sp r"
proof -
  obtain a t where s: "s = a # t" using assms(2) by (cases s) auto
  consider (one) "(of_char a :: nat) < 0x80"
    | (bad) "\<not> (of_char a :: nat) < 0x80" "(of_char a :: nat) < 0xC2 \<or> \<not> (of_char a :: nat) < 0xF5"
    | (two) "\<not> (of_char a :: nat) < 0xC2" "(of_char a :: nat) < 0xE0"
    | (three) "\<not> (of_char a :: nat) < 0xE0" "(of_char a :: nat) < 0xF0"
    | (four) "\<not> (of_char a :: nat) < 0xF0" "(of_char a :: nat) < 0xF5"
    by linarith
  then show ?thesis
  proof cases
    case one
    then have "chunk sp [a]" "utf8_valid sp t"
      using assms(1) unfolding s by (simp_all add: chunk_def utf8_valid_1)
    then show ?thesis using that [of "[a]" t] s by simp
  next
    case bad
    then show ?thesis using assms(1) utf8_valid_bad [of a sp t] unfolding s by blast
  next
    case two
    then obtain b s1 where "t = b # s1" "is_cont b" "utf8_valid sp s1"
      using assms(1) unfolding s by (auto simp: utf8_valid_2)
    moreover have "chunk sp [a, b]" using two \<open>is_cont b\<close> by (simp add: chunk_def)
    ultimately show ?thesis using that [of "[a, b]" s1] s by simp
  next
    case three
    then obtain b c s2 where "t = b # c # s2" "lead3 sp a b" "is_cont c" "utf8_valid sp s2"
      using assms(1) unfolding s by (auto simp: utf8_valid_3)
    moreover have "chunk sp [a, b, c]"
      using three \<open>lead3 sp a b\<close> \<open>is_cont c\<close> by (simp add: chunk_def)
    ultimately show ?thesis using that [of "[a, b, c]" s2] s by simp
  next
    case four
    then obtain b c d s3 where "t = b # c # d # s3" "lead4 a b" "is_cont c" "is_cont d"
      "utf8_valid sp s3"
      using assms(1) unfolding s by (auto simp: utf8_valid_4)
    moreover have "chunk sp [a, b, c, d]"
      using four \<open>lead4 a b\<close> \<open>is_cont c\<close> \<open>is_cont d\<close> by (simp add: chunk_def)
    ultimately show ?thesis using that [of "[a, b, c, d]" s3] s by simp
  qed
qed

lemma utf8_valid_append:
  "utf8_valid sp a \<Longrightarrow> utf8_valid sp b \<Longrightarrow> utf8_valid sp (a @ b)"
proof (induction "length a" arbitrary: a rule: less_induct)
  case less
  show ?case
  proof (cases "a = []")
    case True
    with less.prems show ?thesis by simp
  next
    case False
    from utf8_valid_split [OF less.prems(1) False] obtain p r where
      a: "a = p @ r" and p: "chunk sp p" and len: "length r < length a" and r: "utf8_valid sp r"
      by blast
    have "utf8_valid sp (r @ b)" using less.hyps [OF len r less.prems(2)] .
    then show ?thesis unfolding a using utf8_valid_chunk [OF p, of "r @ b"] by simp
  qed
qed

lemma chunk_strict: "chunk False p \<Longrightarrow> chunk True p"
  unfolding chunk_def lead3_def by blast

lemma utf8_valid_strict: "utf8_valid False s \<Longrightarrow> utf8_valid True s"
proof (induction "length s" arbitrary: s rule: less_induct)
  case less
  show ?case
  proof (cases "s = []")
    case True
    then show ?thesis by simp
  next
    case False
    from utf8_valid_split [OF less.prems False] obtain p r where
      s: "s = p @ r" and p: "chunk False p" and len: "length r < length s"
      and r: "utf8_valid False r" by blast
    show ?thesis
      unfolding s using utf8_valid_chunk [OF chunk_strict [OF p], of r] less.hyps [OF len r] by simp
  qed
qed

lemma ascii_simps [simp]:
  "ascii []" "ascii (c # s) \<longleftrightarrow> (of_char c :: nat) < 0x80 \<and> c \<noteq> CHR 0x00 \<and> ascii s"
  "ascii (a @ b) \<longleftrightarrow> ascii a \<and> ascii b"
  by (auto simp: ascii_def)

lemma utf8_valid_ascii: "ascii s \<Longrightarrow> utf8_valid sp s"
  by (induction s) (simp_all add: utf8_valid_1)

lemma good_ascii: "ascii s \<Longrightarrow> good s"
  by (auto simp: good_def utf8_valid_ascii ascii_def)

lemma good_append: "good a \<Longrightarrow> good b \<Longrightarrow> good (a @ b)"
  by (simp add: good_def utf8_valid_append)

lemma good_Nil [simp]: "good []"
  by (simp add: good_def)

lemma hex_digit_ascii:
  assumes "d < 16"
  shows "(of_char (hex_digit d) :: nat) < 0x80" and "hex_digit d \<noteq> CHR 0x00"
proof -
  have v: "(of_char (hex_digit d) :: nat) = (if d < 10 then 48 + d else 87 + d)"
    using assms by (simp add: hex_digit_def)
  then show "(of_char (hex_digit d) :: nat) < 0x80" using assms by (simp split: if_splits)
  show "hex_digit d \<noteq> CHR 0x00"
  proof
    assume "hex_digit d = CHR 0x00"
    then have "(of_char (hex_digit d) :: nat) = 0" by simp
    with v show False by (simp split: if_splits)
  qed
qed

lemma special_low:
  "c \<in> {CHR 0x22, CHR 0x5C, CHR 0x0A, CHR 0x0D, CHR 0x09, CHR 0x08, CHR 0x0C} \<Longrightarrow>
   (of_char c :: nat) < 0x20 \<or> c = CHR 0x22 \<or> c = CHR 0x5C"
  by auto

lemma escape_char_plain:
  assumes "\<not> (of_char c :: nat) < 0x20" and "c \<noteq> CHR 0x22" and "c \<noteq> CHR 0x5C"
  shows "escape_char c = [c]"
proof -
  have "c \<notin> {CHR 0x22, CHR 0x5C, CHR 0x0A, CHR 0x0D, CHR 0x09, CHR 0x08, CHR 0x0C}"
    using special_low [of c] assms by blast
  then show ?thesis using assms(1) by (simp add: escape_char_def)
qed

lemma escape_char_high: "\<not> (of_char c :: nat) < 0x80 \<Longrightarrow> escape_char c = [c]"
proof (rule escape_char_plain)
  assume h: "\<not> (of_char c :: nat) < 0x80"
  then show "\<not> (of_char c :: nat) < 0x20" by simp
  show "c \<noteq> CHR 0x22" using h by auto
  show "c \<noteq> CHR 0x5C" using h by auto
qed

lemma is_cont_high: "is_cont c \<Longrightarrow> \<not> (of_char c :: nat) < 0x80"
  by (simp add: is_cont_def)

lemma escape_char_ascii:
  assumes "(of_char c :: nat) < 0x80"
  shows "ascii (escape_char c)"
proof -
  consider (quote) "c = CHR 0x22" | (bs) "c = CHR 0x5C" | (nl) "c = CHR 0x0A" | (cr) "c = CHR 0x0D"
    | (tab) "c = CHR 0x09" | (b) "c = CHR 0x08" | (ff) "c = CHR 0x0C"
    | (ctl) "c \<notin> {CHR 0x22, CHR 0x5C, CHR 0x0A, CHR 0x0D, CHR 0x09, CHR 0x08, CHR 0x0C}"
        "(of_char c :: nat) < 0x20"
    | (plain) "\<not> (of_char c :: nat) < 0x20" "c \<noteq> CHR 0x22" "c \<noteq> CHR 0x5C"
    by blast
  then show ?thesis
  proof cases
    case ctl
    then have "of_char c div 16 < (16::nat)" "of_char c mod 16 < (16::nat)" by simp_all
    from hex_digit_ascii [OF this(1)] hex_digit_ascii [OF this(2)] ctl show ?thesis
      by (simp add: escape_char_def)
  next
    case plain
    then have "c \<noteq> CHR 0x00" by auto
    with assms show ?thesis by (simp add: escape_char_plain [OF plain])
  qed (simp_all add: escape_char_def)
qed

lemma escape_chunk:
  assumes "chunk sp p"
  shows "utf8_valid sp (concat (map escape_char p))"
  using assms unfolding chunk_def
proof (elim disjE exE conjE)
  fix a assume "p = [a]" "(of_char a :: nat) < 0x80"
  then show ?thesis using utf8_valid_ascii [OF escape_char_ascii] by simp
next
  fix a b assume p: "p = [a, b]" and a: "\<not> (of_char a :: nat) < 0xC2" "(of_char a :: nat) < 0xE0"
    and b: "is_cont b"
  have "chunk sp [a, b]" using a b by (simp add: chunk_def)
  from utf8_valid_chunk [OF this, of "[]"] show ?thesis
    using a is_cont_high [OF b] by (simp add: p escape_char_high)
next
  fix a b c assume p: "p = [a, b, c]" and a: "\<not> (of_char a :: nat) < 0xE0" "(of_char a :: nat) < 0xF0"
    and b: "lead3 sp a b" and c: "is_cont c"
  have "chunk sp [a, b, c]" using a b c by (simp add: chunk_def)
  moreover have "is_cont b" using b by (simp add: lead3_def)
  ultimately show ?thesis
    using utf8_valid_chunk [of sp "[a, b, c]" "[]"] a is_cont_high [OF c] is_cont_high [of b]
    by (simp add: p escape_char_high)
next
  fix a b c d assume p: "p = [a, b, c, d]" and a: "\<not> (of_char a :: nat) < 0xF0" "(of_char a :: nat) < 0xF5"
    and b: "lead4 a b" and c: "is_cont c" and d: "is_cont d"
  have "chunk sp [a, b, c, d]" using a b c d by (simp add: chunk_def)
  moreover have "is_cont b" using b by (simp add: lead4_def)
  ultimately show ?thesis
    using utf8_valid_chunk [of sp "[a, b, c, d]" "[]"] a is_cont_high [OF c] is_cont_high [OF d]
      is_cont_high [of b]
    by (simp add: p escape_char_high)
qed

lemma utf8_valid_escape: "utf8_valid sp s \<Longrightarrow> utf8_valid sp (concat (map escape_char s))"
proof (induction "length s" arbitrary: s rule: less_induct)
  case less
  show ?case
  proof (cases "s = []")
    case True
    then show ?thesis by simp
  next
    case False
    from utf8_valid_split [OF less.prems False] obtain p r where
      s: "s = p @ r" and p: "chunk sp p" and len: "length r < length s" and r: "utf8_valid sp r"
      by blast
    show ?thesis
      unfolding s using utf8_valid_append [OF escape_chunk [OF p] less.hyps [OF len r]] by simp
  qed
qed

lemma escape_char_no_nul: "CHR 0x00 \<notin> set (escape_char c)"
proof (cases "(of_char c :: nat) < 0x80")
  case True
  from escape_char_ascii [OF this] show ?thesis by (auto simp: ascii_def)
next
  case False
  then have "c \<noteq> CHR 0x00" by auto
  then show ?thesis by (simp add: escape_char_high [OF False])
qed

lemma good_encode_basestring:
  assumes "is_text s"
  shows "good (encode_basestring s)"
proof -
  have "utf8_valid True (concat (map escape_char s))"
    using assms by (simp add: is_text_def utf8_valid_escape utf8_valid_strict)
  moreover have "utf8_valid True [CHR 0x22]" by (simp add: utf8_valid_1)
  ultimately have "utf8_valid True (concat (map escape_char s) @ [CHR 0x22])"
    by (rule utf8_valid_append)
  then have "utf8_valid True (encode_basestring s)"
    by (simp add: encode_basestring_def utf8_valid_1)
  moreover have "CHR 0x00 \<notin> set (encode_basestring s)"
    using escape_char_no_nul by (auto simp: encode_basestring_def)
  ultimately show ?thesis by (simp add: good_def)
qed

lemma good_str_join:
  "good sep \<Longrightarrow> (\<And>x. x \<in> set xs \<Longrightarrow> good x) \<Longrightarrow> good (str_join sep xs)"
  by (induction sep xs rule: str_join.induct) (simp_all add: good_append)

lemma digit_ascii: "is_digit c \<Longrightarrow> (of_char c :: nat) < 0x80 \<and> c \<noteq> CHR 0x00"
  by (auto simp: is_digit_def)

lemma ascii_nat_repr: "ascii (nat_repr n)"
  using nat_repr_digits [of _ n] digit_ascii by (auto simp: ascii_def)

lemma good_int_repr: "good (int_repr i)"
  by (rule good_ascii) (simp add: int_repr_def ascii_nat_repr)

lemma ascii_newline_indent: "ascii (newline_indent ind lvl)"
  by (simp add: newline_indent_def ascii_def)

lemma good_iterencode: "json_ok v \<Longrightarrow> good (iterencode ind lvl v)"
proof (induction v arbitrary: lvl)
  case PNone
  show ?case by (rule good_ascii) simp
next
  case (PBool b)
  show ?case by (rule good_ascii) simp
next
  case (PInt i)
  show ?case by (simp add: good_int_repr)
next
  case (PFloat f)
  then show ?case by simp
next
  case (PStr s)
  then show ?case by (simp add: good_encode_basestring)
next
  case (PList xs)
  show ?case
  proof (cases "xs = []")
    case True
    then show ?thesis by (simp add: good_ascii)
  next
    case False
    have sep: "good (CHR '','' # newline_indent ind (Suc lvl))"
      by (rule good_ascii) (simp add: ascii_newline_indent)
    have items: "good (str_join (CHR '','' # newline_indent ind (Suc lvl))
                      (map (iterencode ind (Suc lvl)) xs))"
      using PList by (intro good_str_join [OF sep]) (auto simp: list_all_iff)
    have "good (''['' @ newline_indent ind (Suc lvl))" "good (newline_indent ind lvl @ '']'')"
      by (rule good_ascii, simp add: ascii_newline_indent)+
    from good_append [OF this(1) good_append [OF items this(2)]] False
    show ?thesis by simp
  qed
next
  case (PDict kvs)
  show ?case
  proof (cases "kvs = []")
    case True
    then show ?thesis by (simp add: good_ascii)
  next
    case False
    have sep: "good (CHR '','' # newline_indent ind (Suc lvl))"
      by (rule good_ascii) (simp add: ascii_newline_indent)
    have item: "good (encode_item ind (Suc lvl) kv)" if "kv \<in> set kvs" for kv
    proof -
      obtain k v where kv: "kv = (k, v)" by (cases kv)
      have "is_text k" "json_ok v" using PDict.prems that kv by (auto simp: list_all_iff)
      moreover have "good (iterencode ind (Suc lvl) v)"
        using PDict.IH [of kv v "Suc lvl"] that kv \<open>json_ok v\<close> by simp
      moreover have "good '': ''" by (rule good_ascii) simp
      ultimately show ?thesis
        unfolding kv encode_item_def
        by (intro good_append) (simp_all add: good_encode_basestring)
    qed
    have items: "good (str_join (CHR '','' # newline_indent ind (Suc lvl))
                      (map (encode_item ind (Suc lvl)) kvs))"
      using item by (intro good_str_join [OF sep]) auto
    have "good (''{'' @ newline_indent ind (Suc lvl))" "good (newline_indent ind lvl @ ''}'')"
      by (rule good_ascii, simp add: ascii_newline_indent)+
    from good_append [OF this(1) good_append [OF items this(2)]]
    show ?thesis by (simp add: iterencode_dict [OF False] del: iterencode.simps)
  qed
qed

lemma detect_encoding_utf8:
  assumes "(of_char c :: nat) < 0x80" and "CHR 0x00 \<notin> set (c # cs)"
  shows "detect_encoding (c # cs) = UTF8"
proof -
  have c: "c \<noteq> CHR 0x00" "c \<noteq> CHR 0xFF" "c \<noteq> CHR 0xFE" "c \<noteq> CHR 0xEF"
    using assms by auto
  have second: "cs ! 0 \<noteq> CHR 0x00" if "cs \<noteq> []"
    using that assms(2) by (cases cs) auto
  show ?thesis
    using c second
    by (cases cs) (auto simp: detect_encoding_def starts_with_def)
qed

lemma decode_bytes_good:
  assumes "good (c # cs)" and "(of_char c :: nat) < 0x80"
  shows "decode_bytes (c # cs) = Inr (c # cs)"
  using assms detect_encoding_utf8 [of c cs]
  by (simp add: decode_bytes_def decode_utf8_def good_def)

lemma json_decode_iterencode:
  assumes "json_ok v"
  shows "json_decode (iterencode ind lvl v) = Inr v"
proof -
  obtain c cs where c: "iterencode ind lvl v = c # cs" and vs: "value_start c"
    using iterencode_head [OF assms, of ind lvl] by blast
  have "skip_ws (iterencode ind lvl v) = iterencode ind lvl v"
    unfolding c by (rule skip_ws_id [OF value_start_not(1) [OF vs]])
  moreover have "parse_value (iterencode ind lvl v) = Some (v, [])"
    using parse_value_iterencode [OF assms, of "[]" ind lvl] by simp
  ultimately show ?thesis by (simp add: json_decode_def skip_ws_def)
qed

lemma json_loads_dumps:
  assumes "json_ok v"
  shows "json_loads (json_dumps ind v) = Inr v"
proof -
  obtain c cs where c: "iterencode ind 0 v = c # cs" and vs: "value_start c"
    using iterencode_head [OF assms, of ind 0] by blast
  have "decode_bytes (iterencode ind 0 v) = Inr (iterencode ind 0 v)"
    using decode_bytes_good [of c cs] good_iterencode [OF assms, of ind 0] value_start_not(4) [OF vs]
    unfolding c by simp
  then show ?thesis
    by (simp add: json_loads_def json_dumps_def json_decode_iterencode [OF assms])
qed

lemma well_formed_message_iff:
  "well_formed_message m \<longleftrightarrow>
     (\<exists>role content. m = PDict [(''role'', PStr role), (''content'', PStr content)]
        \<and> is_text role \<and> is_text content)"
  by (auto simp: well_formed_message_def split: pyval.splits list.splits prod.splits)

lemma is_text_ascii: "ascii s \<Longrightarrow> is_text s"
  by (simp add: is_text_def utf8_valid_ascii)

lemma well_formed_message_json_ok: "well_formed_message m \<Longrightarrow> json_ok m"
  by (auto simp: well_formed_message_iff is_text_ascii)

lemma well_formed_history_json_ok: "well_formed_history H \<Longrightarrow> json_ok (PList H)"
  by (simp add: well_formed_history_def list_all_iff well_formed_message_json_ok)

lemma snapshot_reads_back:
  assumes "json_ok v" and "record_file w = Some (json_dumps 4 v)"
  shows "load_chat_history w = (Inr v, w)"
  using assms by (simp add: load_chat_history_def json_loads_dumps)

section \<open>The properties of the specification\<close>

text \<open>
  Claim C8. For each of the roles system, user and assistant and every content, the empty
  one included, \<^const>\<open>create_message_dict\<close> returns the message whose role and content are
  the inputs; for every other role it fails with the invalid-role error. These two
  cases are all there is: the function is total and has no other failure.
\<close>
theorem create_message_dict_roles:
  "(role \<in> {''system'', ''user'', ''assistant''} \<longrightarrow>
      create_message_dict role content = Inr (PDict [(''role'', PStr role), (''content'', PStr content)]))
   \<and> (role \<notin> {''system'', ''user'', ''assistant''} \<longrightarrow>
      create_message_dict role content = Inl InvalidRole)"
  by (auto simp: create_message_dict_def)

theorem create_message_dict_roles_witness:
  "create_message_dict ''user'' [] = Inr (PDict [(''role'', PStr ''user''), (''content'', PStr [])])
   \<and> create_message_dict ''admin'' ''hello'' = Inl InvalidRole"
  using create_message_dict_roles [of "''user''" "[]"] create_message_dict_roles [of "''admin''" "''hello''"]
  by simp














text \<open>
  Claim C3. For every well-formed history \<open>H\<close>, a list of messages whose role and content
  are text, \<^const>\<open>load_chat_history\<close> after \<^const>\<open>save_chat_history\<close> of \<open>H\<close> returns \<open>H\<close>
  itself, every message in its place and with its content, and prints no warning. The
  snapshot file is taken to be writable: a failed write is caught and leaves the file
  as it was.
\<close>
theorem save_load_round_trip:
  assumes "well_formed_history H" and "record_writable w"
  shows "load_chat_history (save_chat_history (PList H) w)
     = (Inr (PList H), save_chat_history (PList H) w)"
  using assms
  by (intro snapshot_reads_back well_formed_history_json_ok) (simp_all add: save_chat_history_def)

theorem save_load_round_trip_witness:
  "fst (load_chat_history (save_chat_history
      (PList [system_message_entry ''be brief'', user_message ''hi'', assistant_message ''ok'']) quiet_world))
     = Inr (PList [system_message_entry ''be brief'', user_message ''hi'', assistant_message ''ok''])"
  using save_load_round_trip [of "[system_message_entry ''be brief'', user_message ''hi'', assistant_message ''ok'']" quiet_world]
  by (simp add: well_formed_history_def well_formed_message_def system_message_entry_def
      user_message_def assistant_message_def quiet_world_def is_text_ascii)

text \<open>
  Claim C4 does not hold on the code. A snapshot that is absent, or that is text but not
  JSON, gives the empty history (\<open>load_chat_history_absent\<close>, \<open>load_chat_history_not_json\<close>);
  but \<^verbatim>\<open>json.loads\<close> on bytes that are not text raises \<^verbatim>\<open>UnicodeDecodeError\<close>, which is
  not a \<^verbatim>\<open>JSONDecodeError\<close> and is not caught: with the single byte \<^verbatim>\<open>0xFF\<close> in the
  snapshot, \<^const>\<open>load_chat_history\<close> raises.
\<close>
theorem load_chat_history_undecodable:
  "fst (load_chat_history undecodable_world) = Inl UnicodeDecodeError"
  by (simp add: load_chat_history_def undecodable_world_def quiet_world_def json_loads_def
      decode_bytes_def detect_encoding_def starts_with_def decode_utf8_def utf8_valid.simps)



end
